theory Spec2Isabelle
  imports Main "HOL-Library.Word" "HOL-Library.AList" "HOL-Library.Sublist"
begin

section \<open>Data model\<close>

text \<open>
  A Go string is modelled by the list of its runes, with runes in the range U+0000..U+00FF
  (the type \<open>char\<close>). A \<open>time.Time\<close> is an integer count of clock units since Go's zero
  Time, so \<open>IsZero t\<close> is \<open>t = 0\<close>; every \<open>time.Now()\<close> of one call is the argument \<open>now\<close> of
  the function that models the call. A Go map is an association list: \<open>m[k]\<close> is
  \<open>map_of m k\<close> and \<open>m[k] = v\<close> is \<open>AList.update k v m\<close>. Go leaves the iteration order of a
  map unspecified; the model iterates in list order.
\<close>

type_synonym time = int
type_synonym duration = int
type_synonym int64 = "64 word"
type_synonym rune = char

datatype error = NotFound int64 | Failure string | Wrapped string error

text \<open>\<open>TrieNode\<close> of search\_logger.go: children, isEndOfWord, lastSeen, dbID.\<close>

datatype TrieNode =
  TrieNode (children: "(rune \<times> TrieNode) list") (isEndOfWord: bool) (lastSeen: time)
    (dbID: "int64 option")

definition newNode :: TrieNode where
  "newNode = TrieNode [] False 0 None"

definition setIsEndOfWord :: "bool \<Rightarrow> TrieNode \<Rightarrow> TrieNode" where
  "setIsEndOfWord b n = TrieNode (children n) b (lastSeen n) (dbID n)"

definition setLastSeen :: "time \<Rightarrow> TrieNode \<Rightarrow> TrieNode" where
  "setLastSeen t n = TrieNode (children n) (isEndOfWord n) t (dbID n)"

definition setDbID :: "int64 option \<Rightarrow> TrieNode \<Rightarrow> TrieNode" where
  "setDbID r n = TrieNode (children n) (isEndOfWord n) (lastSeen n) r"

text \<open>
  A \<open>*TrieNode\<close> is modelled by the path that leads to the node from the root: every node
  has one parent, so the path names it. \<open>nodeAt\<close> follows a pointer, \<open>updateAt\<close> writes
  through it.
\<close>

fun nodeAt :: "TrieNode \<Rightarrow> string \<Rightarrow> TrieNode option" where
  "nodeAt n [] = Some n"
| "nodeAt n (c # cs) =
     (case map_of (children n) c of None \<Rightarrow> None | Some ch \<Rightarrow> nodeAt ch cs)"

fun updateAt :: "string \<Rightarrow> (TrieNode \<Rightarrow> TrieNode) \<Rightarrow> TrieNode \<Rightarrow> TrieNode" where
  "updateAt [] f n = f n"
| "updateAt (c # cs) f n =
     (case map_of (children n) c of
        None \<Rightarrow> n
      | Some ch \<Rightarrow>
          TrieNode (AList.update c (updateAt cs f ch) (children n)) (isEndOfWord n)
            (lastSeen n) (dbID n))"

text \<open>The traverse/build loop shared by \<open>LogSearch\<close> and \<open>buildTrieFromWord\<close>.\<close>

fun traverseBuild :: "string \<Rightarrow> TrieNode \<Rightarrow> TrieNode" where
  "traverseBuild [] n = n"
| "traverseBuild (c # cs) n =
     (let ch = (case map_of (children n) c of None \<Rightarrow> newNode | Some ch \<Rightarrow> ch)
      in TrieNode (AList.update c (traverseBuild cs ch) (children n)) (isEndOfWord n)
           (lastSeen n) (dbID n))"

subsection \<open>The database\<close>

text \<open>\<open>SearchRecord\<close> and \<open>MockPostgresDB\<close> of postgres\_mock.go.\<close>

record SearchRecord =
  ID :: int64
  Word :: string
  FirstSearchedAt :: time
  LastUpdatedAt :: time
  SearchCount :: "64 word"

record MockPostgresDB =
  searches :: "(int64 \<times> SearchRecord) list"
  nextID :: int64

definition NewMockPostgresDB :: MockPostgresDB where
  "NewMockPostgresDB = \<lparr>searches = [], nextID = 1\<rparr>"

definition CreateTable :: "MockPostgresDB \<Rightarrow> error option \<times> MockPostgresDB" where
  "CreateTable d = (None, d)"

definition InsertOrReplace ::
  "string \<Rightarrow> time \<Rightarrow> time \<Rightarrow> MockPostgresDB \<Rightarrow> (error + int64) \<times> MockPostgresDB" where
  "InsertOrReplace word firstSearched lastUpdated d =
     (case find (\<lambda>e. Word (snd e) = word) (searches d) of
        Some e \<Rightarrow>
          (Inr (fst e),
           d\<lparr>searches :=
               AList.update (fst e)
                 ((snd e)\<lparr>LastUpdatedAt := lastUpdated, SearchCount := SearchCount (snd e) + 1\<rparr>)
                 (searches d)\<rparr>)
      | None \<Rightarrow>
          (Inr (nextID d),
           d\<lparr>nextID := nextID d + 1,
             searches :=
               AList.update (nextID d)
                 \<lparr>ID = nextID d, Word = word, FirstSearchedAt = firstSearched,
                  LastUpdatedAt = lastUpdated, SearchCount = 1\<rparr>
                 (searches d)\<rparr>))"

definition Update ::
  "int64 \<Rightarrow> string \<Rightarrow> time \<Rightarrow> MockPostgresDB \<Rightarrow> error option \<times> MockPostgresDB" where
  "Update ident newWord lastUpdated d =
     (case map_of (searches d) ident of
        None \<Rightarrow> (Some (NotFound ident), d)
      | Some r \<Rightarrow>
          (None,
           d\<lparr>searches :=
               AList.update ident
                 (r\<lparr>Word := newWord, LastUpdatedAt := lastUpdated,
                    SearchCount := SearchCount r + 1\<rparr>)
                 (searches d)\<rparr>))"

definition GetAllSearchedWords :: "MockPostgresDB \<Rightarrow> error + string list" where
  "GetAllSearchedWords d = Inr (map (\<lambda>e. Word (snd e)) (searches d))"

text \<open>
  The logger reaches its database only through the four methods above. Its functions are
  given for any implementation of them (a \<open>gateway\<close>), so that the branches of the logger
  that handle a failed call can be reached; \<open>mockGateway\<close> is the implementation in the
  repository.
\<close>

record 'db gateway =
  gwCreateTable :: "'db \<Rightarrow> error option \<times> 'db"
  gwInsertOrReplace :: "string \<Rightarrow> time \<Rightarrow> time \<Rightarrow> 'db \<Rightarrow> (error + int64) \<times> 'db"
  gwUpdate :: "int64 \<Rightarrow> string \<Rightarrow> time \<Rightarrow> 'db \<Rightarrow> error option \<times> 'db"
  gwGetAllSearchedWords :: "'db \<Rightarrow> error + string list"

definition mockGateway :: "MockPostgresDB gateway" where
  "mockGateway =
     \<lparr>gwCreateTable = CreateTable, gwInsertOrReplace = InsertOrReplace, gwUpdate = Update,
      gwGetAllSearchedWords = GetAllSearchedWords\<rparr>"

subsection \<open>The logger\<close>

record 'db SearchLogger =
  prefixTree :: TrieNode
  db :: 'db
  timeout :: duration

text \<open>\<open>strings.TrimSpace\<close> and \<open>strings.ToLower\<close> on runes up to U+00FF.\<close>

definition isSpace :: "rune \<Rightarrow> bool" where
  "isSpace c = (of_char c \<in> {9, 10, 11, 12, 13, 32, 133, 160 :: nat})"

definition TrimSpace :: "string \<Rightarrow> string" where
  "TrimSpace s = rev (dropWhile isSpace (rev (dropWhile isSpace s)))"

definition toLowerRune :: "rune \<Rightarrow> rune" where
  "toLowerRune c =
     (let n = (of_char c :: nat)
      in if (65 \<le> n \<and> n \<le> 90) \<or> (192 \<le> n \<and> n \<le> 222 \<and> n \<noteq> 215)
         then char_of (n + 32) else c)"

definition ToLower :: "string \<Rightarrow> string" where
  "ToLower s = map toLowerRune s"

text \<open>
  \<open>handleWordExtension\<close>: the loop walks \<open>node\<close> down the path of \<open>word\<close>; \<open>pre\<close> is the
  path walked so far and \<open>rest\<close> the runes still to come, so \<open>i < len(word) - 1\<close> is
  \<open>rest \<noteq> []\<close> after the step.
\<close>

fun hweLoop ::
  "'db gateway \<Rightarrow> time \<Rightarrow> string \<Rightarrow> string \<Rightarrow> string \<Rightarrow> 'db SearchLogger \<Rightarrow>
   error option \<times> 'db SearchLogger" where
  "hweLoop gw now word pre [] sl = (None, sl)"
| "hweLoop gw now word pre (c # rest) sl =
     (case nodeAt (prefixTree sl) (pre @ [c]) of
        None \<Rightarrow> (None, sl)
      | Some node \<Rightarrow>
          (case dbID node of
             Some ident \<Rightarrow>
               if isEndOfWord node \<and> rest \<noteq> [] then
                 (case gwUpdate gw ident word now (db sl) of
                    (Some e, d) \<Rightarrow> (Some (Wrapped ''failed to update stored word'' e), sl\<lparr>db := d\<rparr>)
                  | (None, d) \<Rightarrow>
                      hweLoop gw now word (pre @ [c]) rest
                        (sl\<lparr>db := d,
                            prefixTree :=
                              updateAt (pre @ [c]) (setDbID None)
                                (updateAt word (setDbID (Some ident)) (prefixTree sl))\<rparr>))
               else hweLoop gw now word (pre @ [c]) rest sl
           | None \<Rightarrow> hweLoop gw now word (pre @ [c]) rest sl))"

definition handleWordExtension ::
  "'db gateway \<Rightarrow> time \<Rightarrow> string \<Rightarrow> 'db SearchLogger \<Rightarrow> error option \<times> 'db SearchLogger" where
  "handleWordExtension gw now word sl = hweLoop gw now word [] word sl"

definition LogSearch ::
  "'db gateway \<Rightarrow> time \<Rightarrow> string \<Rightarrow> 'db SearchLogger \<Rightarrow> error option \<times> 'db SearchLogger" where
  "LogSearch gw now word sl =
     (if word = [] then (None, sl)
      else
        let w = ToLower (TrimSpace word);
            sl1 = sl\<lparr>prefixTree := updateAt w (setLastSeen now) (traverseBuild w (prefixTree sl))\<rparr>
        in case handleWordExtension gw now w sl1 of
             (Some e, sl2) \<Rightarrow> (Some (Wrapped ''failed to handle word extension'' e), sl2)
           | (None, sl2) \<Rightarrow> (None, sl2))"

definition storeWordToDB ::
  "'db gateway \<Rightarrow> time \<Rightarrow> string \<Rightarrow> 'db SearchLogger \<Rightarrow> error option \<times> 'db SearchLogger" where
  "storeWordToDB gw now word sl =
     (case gwInsertOrReplace gw word now now (db sl) of
        (Inl e, d) \<Rightarrow> (Some e, sl\<lparr>db := d\<rparr>)
      | (Inr ident, d) \<Rightarrow>
          (None, sl\<lparr>db := d, prefixTree := updateAt word (setDbID (Some ident)) (prefixTree sl)\<rparr>))"

lemma size_child [termination_simp]:
  "e \<in> set (children node) \<Longrightarrow> size (snd e) < size node"
proof (cases node)
  case (TrieNode cs b t r)
  have "e \<in> set cs \<Longrightarrow> size (snd e) < Suc (size_list (size_prod (\<lambda>_. 0) size) cs)"
    by (induction cs) auto
  with TrieNode show "e \<in> set (children node) \<Longrightarrow> size (snd e) < size node"
    by simp
qed

fun findAllTimedOutWords :: "TrieNode \<Rightarrow> string \<Rightarrow> time \<Rightarrow> string list" where
  "findAllTimedOutWords node currentWord cutoffTime =
     (if lastSeen node \<noteq> 0 \<and> lastSeen node < cutoffTime then [currentWord] else []) @
     concat (map (\<lambda>e. findAllTimedOutWords (snd e) (currentWord @ [fst e]) cutoffTime)
       (children node))"

fun hasAnySearchedDescendants :: "TrieNode \<Rightarrow> bool" where
  "hasAnySearchedDescendants node =
     list_ex (\<lambda>e. lastSeen (snd e) \<noteq> 0 \<or> hasAnySearchedDescendants (snd e)) (children node)"

definition isPrefixOfAnyWord :: "string \<Rightarrow> 'db SearchLogger \<Rightarrow> bool" where
  "isPrefixOfAnyWord word sl =
     (case nodeAt (prefixTree sl) word of
        None \<Rightarrow> False
      | Some node \<Rightarrow> hasAnySearchedDescendants node)"

text \<open>The body of the loop of \<open>processTimedOutWords\<close> over the timed-out words.\<close>

definition sweepWord :: "'db gateway \<Rightarrow> time \<Rightarrow> string \<Rightarrow> 'db SearchLogger \<Rightarrow> 'db SearchLogger" where
  "sweepWord gw now word sl =
     (case nodeAt (prefixTree sl) word of
        None \<Rightarrow> sl
      | Some node \<Rightarrow>
          if dbID node \<noteq> None then sl
          else if isPrefixOfAnyWord word sl then sl
          else snd (storeWordToDB gw now word
                 (sl\<lparr>prefixTree := updateAt word (setIsEndOfWord True) (prefixTree sl)\<rparr>)))"

definition processTimedOutWords :: "'db gateway \<Rightarrow> time \<Rightarrow> 'db SearchLogger \<Rightarrow> 'db SearchLogger" where
  "processTimedOutWords gw now sl =
     (let cutoffTime = now - timeout sl;
          timedOutWords = findAllTimedOutWords (prefixTree sl) [] cutoffTime
      in if timedOutWords = [] then sl else fold (sweepWord gw now) timedOutWords sl)"

definition buildTrieFromWord :: "time \<Rightarrow> string \<Rightarrow> 'db SearchLogger \<Rightarrow> 'db SearchLogger" where
  "buildTrieFromWord now word sl =
     sl\<lparr>prefixTree :=
          updateAt word (setLastSeen now)
            (updateAt word (setIsEndOfWord True) (traverseBuild word (prefixTree sl)))\<rparr>"

definition loadExistingWords ::
  "'db gateway \<Rightarrow> time \<Rightarrow> 'db SearchLogger \<Rightarrow> error + 'db SearchLogger" where
  "loadExistingWords gw now sl =
     (case gwGetAllSearchedWords gw (db sl) of
        Inl e \<Rightarrow> Inl (Wrapped ''failed to get words from database'' e)
      | Inr ws \<Rightarrow> Inr (fold (buildTrieFromWord now) ws sl))"

definition NewSearchLoggerWithDB ::
  "'db gateway \<Rightarrow> time \<Rightarrow> duration \<Rightarrow> 'db \<Rightarrow> error + 'db SearchLogger" where
  "NewSearchLoggerWithDB gw now tmo d =
     (case gwCreateTable gw d of
        (Some e, d1) \<Rightarrow> Inl (Wrapped ''failed to create table'' e)
      | (None, d1) \<Rightarrow>
          (case loadExistingWords gw now \<lparr>prefixTree = newNode, db = d1, timeout = tmo\<rparr> of
             Inl e \<Rightarrow> Inl (Wrapped ''failed to load existing words'' e)
           | Inr sl \<Rightarrow> Inr sl))"

definition GetStoredSearches :: "'db gateway \<Rightarrow> 'db SearchLogger \<Rightarrow> error + string list" where
  "GetStoredSearches gw sl = gwGetAllSearchedWords gw (db sl)"

definition NewSearchLogger :: "time \<Rightarrow> duration \<Rightarrow> error + MockPostgresDB SearchLogger" where
  "NewSearchLogger now tmo = NewSearchLoggerWithDB mockGateway now tmo NewMockPostgresDB"

subsection \<open>Runs\<close>

text \<open>
  \<open>LogSearch\<close> and \<open>processTimedOutWords\<close> hold the logger's mutex from before their clock
  reading to their return, so a run of the logger is a sequence of calls, each with the clock
  reading it made: a submission \<open>Submit now word\<close> by a caller, or a tick \<open>Tick now\<close> of
  \<open>flushCompletedWordToDBRoutine\<close>. The error that \<open>LogSearch\<close> returns goes to its caller;
  the logger goes on from the state the call left.
\<close>

datatype event = Submit time string | Tick time

fun eventTime :: "event \<Rightarrow> time" where
  "eventTime (Submit t w) = t"
| "eventTime (Tick t) = t"

fun step :: "'db gateway \<Rightarrow> event \<Rightarrow> 'db SearchLogger \<Rightarrow> 'db SearchLogger" where
  "step gw (Submit now word) sl = snd (LogSearch gw now word sl)"
| "step gw (Tick now) sl = processTimedOutWords gw now sl"

definition run :: "'db gateway \<Rightarrow> event list \<Rightarrow> 'db SearchLogger \<Rightarrow> 'db SearchLogger" where
  "run gw evs sl = fold (step gw) evs sl"

text \<open>The words in the database, as \<open>GetStoredSearches\<close> lists them (\<open>[]\<close> when the call fails).\<close>

definition storedWords :: "'db gateway \<Rightarrow> 'db SearchLogger \<Rightarrow> string list" where
  "storedWords gw sl = (case GetStoredSearches gw sl of Inl e \<Rightarrow> [] | Inr ws \<Rightarrow> ws)"

lemma nodeAt_newNode: "nodeAt newNode p = (if p = [] then Some newNode else None)"
  by (cases p) (simp_all add: newNode_def)

section \<open>Views of the trie\<close>

text \<open>
  What the claims say about a node they say about its fields, so the trie is read through the
  fields found at a path: a missing node reads as the zero value of each field. \<open>wfTrie\<close> says
  that the keys of every children map are distinct, as the keys of a Go map are.
\<close>

definition fields :: "TrieNode \<Rightarrow> bool \<times> time \<times> int64 option" where
  "fields n = (isEndOfWord n, lastSeen n, dbID n)"

definition info :: "TrieNode \<Rightarrow> string \<Rightarrow> (bool \<times> time \<times> int64 option) option" where
  "info n p = map_option fields (nodeAt n p)"

fun wfTrie :: "TrieNode \<Rightarrow> bool" where
  "wfTrie n = (distinct (map fst (children n)) \<and> list_all (\<lambda>e. wfTrie (snd e)) (children n))"

declare wfTrie.simps [simp del]

definition keepsChildren :: "(TrieNode \<Rightarrow> TrieNode) \<Rightarrow> bool" where
  "keepsChildren f = (\<forall>n. children (f n) = children n)"

lemma keepsChildren_setters [simp]:
  "keepsChildren (setLastSeen t)" "keepsChildren (setDbID r)" "keepsChildren (setIsEndOfWord b)"
  by (simp_all add: keepsChildren_def setLastSeen_def setDbID_def setIsEndOfWord_def)

lemma fields_setters [simp]:
  "fields (setLastSeen t n) = (isEndOfWord n, t, dbID n)"
  "fields (setDbID r n) = (isEndOfWord n, lastSeen n, r)"
  "fields (setIsEndOfWord b n) = (b, lastSeen n, dbID n)"
  by (simp_all add: fields_def setLastSeen_def setDbID_def setIsEndOfWord_def)

lemma info_Nil [simp]: "info n [] = Some (fields n)"
  by (simp add: info_def)

lemma info_Cons:
  "info n (c # cs) = (case map_of (children n) c of None \<Rightarrow> None | Some ch \<Rightarrow> info ch cs)"
  by (simp add: info_def split: option.splits)

lemma info_newNode: "info newNode p = (if p = [] then Some (False, 0, None) else None)"
  by (cases p) (simp_all add: info_def newNode_def fields_def)

lemma info_updateAt:
  "keepsChildren f \<Longrightarrow>
   info (updateAt p f n) q =
     (if q = p then map_option (\<lambda>x. fields (f x)) (nodeAt n p) else info n q)"
proof (induction p arbitrary: n q)
  case Nil
  then show ?case
    by (cases q) (auto simp: info_Cons keepsChildren_def)
next
  case (Cons a p)
  show ?case
  proof (cases "map_of (children n) a")
    case None
    then show ?thesis by (auto simp: info_def)
  next
    case (Some ch)
    show ?thesis
    proof (cases q)
      case Nil
      with Some show ?thesis by (simp add: fields_def)
    next
      case (Cons c cs)
      with Some Cons.IH [OF Cons.prems, of ch cs] show ?thesis
        by (auto simp: info_Cons update_conv')
    qed
  qed
qed

lemma info_traverseBuild:
  "info (traverseBuild w n) q =
     (case info n q of
        Some x \<Rightarrow> Some x
      | None \<Rightarrow> if prefix q w then Some (False, 0, None) else None)"
proof (induction w arbitrary: n q)
  case Nil
  then show ?case by (auto split: option.splits)
next
  case (Cons a w)
  show ?case
  proof (cases q)
    case Nil
    then show ?thesis by (simp add: fields_def Let_def)
  next
    case (Cons c cs)
    show ?thesis
    proof (cases "map_of (children n) a")
      case None
      with Cons Cons.IH [of newNode cs] show ?thesis
        by (auto simp: info_Cons update_conv' Let_def info_newNode split: option.splits)
    next
      case (Some ch)
      with Cons Cons.IH [of ch cs] show ?thesis
        by (auto simp: info_Cons update_conv' Let_def split: option.splits)
    qed
  qed
qed

lemma wf_newNode [simp]: "wfTrie newNode"
  by (subst wfTrie.simps) (simp add: newNode_def)

lemma wf_child: "wfTrie n \<Longrightarrow> map_of (children n) c = Some ch \<Longrightarrow> wfTrie ch"
  by (subst (asm) wfTrie.simps) (auto simp: list_all_iff dest!: map_of_SomeD)

lemma set_update_subset: "set (AList.update k v al) \<subseteq> insert (k, v) (set al)"
  by (induction al) auto

lemma wf_update_child:
  "wfTrie n \<Longrightarrow> wfTrie ch \<Longrightarrow> wfTrie (TrieNode (AList.update c ch (children n)) b t r)"
proof -
  assume n: "wfTrie n" and ch: "wfTrie ch"
  from n have "distinct (map fst (children n)) \<and> list_all (\<lambda>e. wfTrie (snd e)) (children n)"
    by (subst (asm) wfTrie.simps)
  then have d: "distinct (map fst (children n))" and a: "\<forall>e\<in>set (children n). wfTrie (snd e)"
    by (simp_all add: list_all_iff)
  have "\<forall>e\<in>set (AList.update c ch (children n)). wfTrie (snd e)"
    using a ch set_update_subset [of c ch "children n"] by fastforce
  with d show ?thesis
    by (subst wfTrie.simps) (simp add: list_all_iff distinct_update)
qed

lemma wf_updateAt:
  "keepsChildren f \<Longrightarrow> wfTrie n \<Longrightarrow> wfTrie (updateAt p f n)"
proof (induction p arbitrary: n)
  case Nil
  then show ?case
    by (subst wfTrie.simps, subst (asm) wfTrie.simps) (simp add: keepsChildren_def)
next
  case (Cons a p)
  show ?case
  proof (cases "map_of (children n) a")
    case None
    with Cons.prems show ?thesis by simp
  next
    case (Some ch)
    with Cons.prems have "wfTrie (updateAt p f ch)"
      by (intro Cons.IH) (auto intro: wf_child)
    with Some Cons.prems show ?thesis
      by (simp add: wf_update_child)
  qed
qed

lemma wf_traverseBuild: "wfTrie n \<Longrightarrow> wfTrie (traverseBuild w n)"
proof (induction w arbitrary: n)
  case Nil
  then show ?case by simp
next
  case (Cons a w)
  show ?case
  proof (cases "map_of (children n) a")
    case None
    have "wfTrie (traverseBuild w newNode)" by (rule Cons.IH) simp
    with None Cons.prems show ?thesis
      by (simp add: wf_update_child)
  next
    case (Some ch)
    with Cons.prems have "wfTrie (traverseBuild w ch)"
      by (intro Cons.IH) (auto intro: wf_child)
    with Some Cons.prems show ?thesis
      by (simp add: wf_update_child)
  qed
qed


definition hasNode :: "TrieNode \<Rightarrow> string \<Rightarrow> bool" where
  "hasNode n p = (nodeAt n p \<noteq> None)"

definition lastSeenAt :: "TrieNode \<Rightarrow> string \<Rightarrow> time" where
  "lastSeenAt n p = (case nodeAt n p of None \<Rightarrow> 0 | Some x \<Rightarrow> lastSeen x)"

definition dbIDAt :: "TrieNode \<Rightarrow> string \<Rightarrow> int64 option" where
  "dbIDAt n p = (case nodeAt n p of None \<Rightarrow> None | Some x \<Rightarrow> dbID x)"

definition isEndAt :: "TrieNode \<Rightarrow> string \<Rightarrow> bool" where
  "isEndAt n p = (case nodeAt n p of None \<Rightarrow> False | Some x \<Rightarrow> isEndOfWord x)"

text \<open>The nodes on the path to \<open>p\<close> (the root and \<open>p\<close> included) that hold a reference.\<close>

definition refHolders :: "TrieNode \<Rightarrow> string \<Rightarrow> string list" where
  "refHolders n p = filter (\<lambda>q. dbIDAt n q \<noteq> None) (prefixes p)"

lemma views_info:
  "hasNode n p = (info n p \<noteq> None)"
  "lastSeenAt n p = (case info n p of None \<Rightarrow> 0 | Some x \<Rightarrow> fst (snd x))"
  "dbIDAt n p = (case info n p of None \<Rightarrow> None | Some x \<Rightarrow> snd (snd x))"
  "isEndAt n p = (case info n p of None \<Rightarrow> False | Some x \<Rightarrow> fst x)"
  by (simp_all add: hasNode_def lastSeenAt_def dbIDAt_def isEndAt_def info_def fields_def
      split: option.splits)

lemma views_traverseBuild [simp]:
  "hasNode (traverseBuild w n) q = (hasNode n q \<or> prefix q w)"
  "lastSeenAt (traverseBuild w n) q = lastSeenAt n q"
  "dbIDAt (traverseBuild w n) q = dbIDAt n q"
  "isEndAt (traverseBuild w n) q = isEndAt n q"
  by (auto simp: views_info info_traverseBuild split: option.splits)

lemma views_setLastSeen [simp]:
  "hasNode (updateAt p (setLastSeen t) n) q = hasNode n q"
  "lastSeenAt (updateAt p (setLastSeen t) n) q =
     (if q = p \<and> hasNode n p then t else lastSeenAt n q)"
  "dbIDAt (updateAt p (setLastSeen t) n) q = dbIDAt n q"
  "isEndAt (updateAt p (setLastSeen t) n) q = isEndAt n q"
  by (auto simp: views_info info_updateAt split: option.splits)
     (auto simp: info_def fields_def)

lemma views_setDbID [simp]:
  "hasNode (updateAt p (setDbID r) n) q = hasNode n q"
  "lastSeenAt (updateAt p (setDbID r) n) q = lastSeenAt n q"
  "dbIDAt (updateAt p (setDbID r) n) q = (if q = p \<and> hasNode n p then r else dbIDAt n q)"
  "isEndAt (updateAt p (setDbID r) n) q = isEndAt n q"
  by (auto simp: views_info info_updateAt split: option.splits)
     (auto simp: info_def fields_def)

lemma views_setIsEndOfWord [simp]:
  "hasNode (updateAt p (setIsEndOfWord b) n) q = hasNode n q"
  "lastSeenAt (updateAt p (setIsEndOfWord b) n) q = lastSeenAt n q"
  "dbIDAt (updateAt p (setIsEndOfWord b) n) q = dbIDAt n q"
  "isEndAt (updateAt p (setIsEndOfWord b) n) q = (if q = p \<and> hasNode n p then b else isEndAt n q)"
  by (auto simp: views_info info_updateAt split: option.splits)
     (auto simp: info_def fields_def)

text \<open>
  The two recursive functions over the children are unfolded only at a node that is given by
  its constructor.
\<close>

declare hasAnySearchedDescendants.simps [simp del]

declare findAllTimedOutWords.simps [simp del]

lemma findAllTimedOutWords_Node [simp]:
  "findAllTimedOutWords (TrieNode cs b t r) cur cutoff =
     (if t \<noteq> 0 \<and> t < cutoff then [cur] else []) @
     concat (map (\<lambda>e. findAllTimedOutWords (snd e) (cur @ [fst e]) cutoff) cs)"
  by (subst findAllTimedOutWords.simps) simp

lemma hasAnySearchedDescendants_Node [simp]:
  "hasAnySearchedDescendants (TrieNode cs b t r) =
     list_ex (\<lambda>e. lastSeen (snd e) \<noteq> 0 \<or> hasAnySearchedDescendants (snd e)) cs"
  by (subst hasAnySearchedDescendants.simps) simp

lemma wfTrie_Node [simp]:
  "wfTrie (TrieNode cs b t r) = (distinct (map fst cs) \<and> list_all (\<lambda>e. wfTrie (snd e)) cs)"
  by (subst wfTrie.simps) simp

lemmas eval_defs =
  run_def LogSearch_def handleWordExtension_def processTimedOutWords_def sweepWord_def
  storeWordToDB_def isPrefixOfAnyWord_def mockGateway_def InsertOrReplace_def Update_def
  GetAllSearchedWords_def GetStoredSearches_def storedWords_def newNode_def CreateTable_def
  NewMockPostgresDB_def NewSearchLogger_def NewSearchLoggerWithDB_def loadExistingWords_def
  buildTrieFromWord_def TrimSpace_def ToLower_def isSpace_def toLowerRune_def
  setLastSeen_def setDbID_def setIsEndOfWord_def Let_def dbIDAt_def lastSeenAt_def isEndAt_def
  hasNode_def

section \<open>Reference uniqueness (C2)\<close>

definition c2_logger :: "MockPostgresDB SearchLogger" where
  "c2_logger = \<lparr>prefixTree = newNode, db = NewMockPostgresDB, timeout = 10\<rparr>"

definition c2_calls :: "event list" where
  "c2_calls = [Submit 2 ''a'', Tick 13, Submit 14 ''ab'', Submit 15 ''abc'', Tick 30]"

text \<open>
  C2: in every reachable state at most one node along any root-to-leaf path holds a non-nil
  dbID. The code breaks this without any failed gateway call. A logger with a timeout of 10 is
  created at time 1. "a" is submitted and a tick stores it under id 1; "ab" is submitted, so
  the record is renamed and its id moves to the node of "ab", whose isEndOfWord stays false;
  "abc" is submitted, and \<open>handleWordExtension\<close> passes the node of "ab" because
  isEndOfWord is false there; the next tick stores "abc" under id 2. The nodes of "ab" and
  "abc" then both hold a reference, on one path.
\<close>

theorem C2_two_references_on_one_path:
  "NewSearchLogger 1 10 = Inr c2_logger \<and>
   refHolders (prefixTree (run mockGateway c2_calls c2_logger)) ''abc'' = [''ab'', ''abc''] \<and>
   dbIDAt (prefixTree (run mockGateway c2_calls c2_logger)) ''ab'' = Some 1 \<and>
   dbIDAt (prefixTree (run mockGateway c2_calls c2_logger)) ''abc'' = Some 2 \<and>
   storedWords mockGateway (run mockGateway c2_calls c2_logger) = [''ab'', ''abc'']"
  by (simp add: eval_defs c2_calls_def c2_logger_def refHolders_def prefixes_snoc [symmetric])

section \<open>The descendants and the timed-out words, by path\<close>

lemma nodeAt_append:
  "nodeAt n (p @ q) = (case nodeAt n p of None \<Rightarrow> None | Some x \<Rightarrow> nodeAt x q)"
  by (induction p arbitrary: n) (auto split: option.splits)

lemma wfTrie_nodeAt: "wfTrie n \<Longrightarrow> nodeAt n p = Some x \<Longrightarrow> wfTrie x"
  by (induction p arbitrary: n) (auto split: option.splits dest: wf_child)

lemma lastSeenAt_Nil [simp]: "lastSeenAt n [] = lastSeen n"
  by (simp add: lastSeenAt_def)

lemma lastSeenAt_Cons:
  "lastSeenAt n (c # cs) = (case map_of (children n) c of None \<Rightarrow> 0 | Some ch \<Rightarrow> lastSeenAt ch cs)"
  by (simp add: lastSeenAt_def split: option.splits)

lemma lastSeenAt_append:
  "lastSeenAt n (p @ q) = (case nodeAt n p of None \<Rightarrow> 0 | Some x \<Rightarrow> lastSeenAt x q)"
  by (simp add: lastSeenAt_def nodeAt_append split: option.splits)

lemma hasDesc_if_seen:
  "q \<noteq> [] \<Longrightarrow> lastSeenAt n q \<noteq> 0 \<Longrightarrow> hasAnySearchedDescendants n"
proof (induction q arbitrary: n)
  case Nil
  then show ?case by simp
next
  case (Cons c cs)
  from Cons.prems obtain ch where ch: "map_of (children n) c = Some ch" "lastSeenAt ch cs \<noteq> 0"
    by (auto simp: lastSeenAt_Cons split: option.splits)
  have mem: "(c, ch) \<in> set (children n)" using ch(1) by (rule map_of_SomeD)
  have "lastSeen ch \<noteq> 0 \<or> hasAnySearchedDescendants ch"
  proof (cases cs)
    case Nil
    with ch(2) show ?thesis by simp
  next
    case (Cons d ds)
    with Cons.IH [of ch] ch(2) show ?thesis by simp
  qed
  with mem have "\<exists>e\<in>set (children n). lastSeen (snd e) \<noteq> 0 \<or> hasAnySearchedDescendants (snd e)"
    by force
  then show ?case
    by (subst hasAnySearchedDescendants.simps) (simp add: list_ex_iff)
qed

lemma seen_if_hasDesc:
  "wfTrie n \<Longrightarrow> hasAnySearchedDescendants n \<Longrightarrow> \<exists>q. q \<noteq> [] \<and> lastSeenAt n q \<noteq> 0"
proof (induction n)
  case (TrieNode cs b t r)
  from TrieNode.prems(2) obtain c ch where mem: "(c, ch) \<in> set cs"
    and d: "lastSeen ch \<noteq> 0 \<or> hasAnySearchedDescendants ch"
    by (auto simp: list_ex_iff)
  from TrieNode.prems(1) mem have m: "map_of cs c = Some ch" and w: "wfTrie ch"
    by (auto simp: list_all_iff)
  from d show ?case
  proof
    assume "lastSeen ch \<noteq> 0"
    with m have "lastSeenAt (TrieNode cs b t r) [c] \<noteq> 0" by (simp add: lastSeenAt_Cons)
    then show ?thesis by blast
  next
    assume "hasAnySearchedDescendants ch"
    with TrieNode.IH [of "(c, ch)" ch] mem w obtain q where "q \<noteq> []" "lastSeenAt ch q \<noteq> 0"
      by auto
    with m have "lastSeenAt (TrieNode cs b t r) (c # q) \<noteq> 0" by (simp add: lastSeenAt_Cons)
    then show ?thesis by blast
  qed
qed

lemma hasDesc_iff:
  "wfTrie n \<Longrightarrow> hasAnySearchedDescendants n = (\<exists>q. q \<noteq> [] \<and> lastSeenAt n q \<noteq> 0)"
  using hasDesc_if_seen seen_if_hasDesc by blast

lemma isPrefixOfAnyWord_iff:
  "wfTrie (prefixTree sl) \<Longrightarrow>
   isPrefixOfAnyWord w sl = (\<exists>q. q \<noteq> [] \<and> lastSeenAt (prefixTree sl) (w @ q) \<noteq> 0)"
  by (auto simp: isPrefixOfAnyWord_def lastSeenAt_append hasDesc_iff wfTrie_nodeAt
      split: option.splits)

lemma findAll_mem_if:
  "lastSeenAt n q \<noteq> 0 \<Longrightarrow> lastSeenAt n q < cutoff \<Longrightarrow>
   cur @ q \<in> set (findAllTimedOutWords n cur cutoff)"
proof (induction q arbitrary: n cur)
  case Nil
  then show ?case by (subst findAllTimedOutWords.simps) simp
next
  case (Cons c cs)
  from Cons.prems obtain ch where ch: "map_of (children n) c = Some ch"
    "lastSeenAt ch cs \<noteq> 0" "lastSeenAt ch cs < cutoff"
    by (auto simp: lastSeenAt_Cons split: option.splits)
  have mem: "(c, ch) \<in> set (children n)" using ch(1) by (rule map_of_SomeD)
  from Cons.IH [OF ch(2,3), of "cur @ [c]"]
  have "cur @ c # cs \<in> set (findAllTimedOutWords ch (cur @ [c]) cutoff)" by simp
  with mem show ?case
    by (subst findAllTimedOutWords.simps) force
qed

lemma findAll_mem_only:
  "wfTrie n \<Longrightarrow> w \<in> set (findAllTimedOutWords n cur cutoff) \<Longrightarrow>
   \<exists>q. w = cur @ q \<and> lastSeenAt n q \<noteq> 0 \<and> lastSeenAt n q < cutoff"
proof (induction n arbitrary: cur)
  case (TrieNode cs b t r)
  from TrieNode.prems(2) consider
    (here) "w = cur" "t \<noteq> 0" "t < cutoff"
    | (below) c ch where "(c, ch) \<in> set cs" "w \<in> set (findAllTimedOutWords ch (cur @ [c]) cutoff)"
    by (auto split: if_splits)
  then show ?case
  proof cases
    case here
    then have "w = cur @ [] \<and> lastSeenAt (TrieNode cs b t r) [] \<noteq> 0 \<and>
      lastSeenAt (TrieNode cs b t r) [] < cutoff" by simp
    then show ?thesis by blast
  next
    case below
    from TrieNode.prems(1) below(1) have m: "map_of cs c = Some ch" and w: "wfTrie ch"
      by (auto simp: list_all_iff)
    from TrieNode.IH [of "(c, ch)" ch "cur @ [c]"] below w obtain q where
      "w = (cur @ [c]) @ q" "lastSeenAt ch q \<noteq> 0" "lastSeenAt ch q < cutoff" by auto
    with m have "w = cur @ (c # q) \<and> lastSeenAt (TrieNode cs b t r) (c # q) \<noteq> 0 \<and>
      lastSeenAt (TrieNode cs b t r) (c # q) < cutoff" by (simp add: lastSeenAt_Cons)
    then show ?thesis by blast
  qed
qed

lemma findAll_set:
  "wfTrie n \<Longrightarrow>
   set (findAllTimedOutWords n [] cutoff) = {q. lastSeenAt n q \<noteq> 0 \<and> lastSeenAt n q < cutoff}"
  using findAll_mem_if [of n _ cutoff "[]"] findAll_mem_only [of n _ "[]" cutoff] by auto

section \<open>What a sweep changes\<close>

lemma storeWordToDB_frame [simp]:
  "timeout (snd (storeWordToDB gw now w sl)) = timeout sl"
  "lastSeenAt (prefixTree (snd (storeWordToDB gw now w sl))) q = lastSeenAt (prefixTree sl) q"
  "hasNode (prefixTree (snd (storeWordToDB gw now w sl))) q = hasNode (prefixTree sl) q"
  "isEndAt (prefixTree (snd (storeWordToDB gw now w sl))) q = isEndAt (prefixTree sl) q"
  by (simp_all add: storeWordToDB_def split: prod.splits sum.splits)

lemma storeWordToDB_dbIDAt_other:
  "q \<noteq> w \<Longrightarrow>
   dbIDAt (prefixTree (snd (storeWordToDB gw now w sl))) q = dbIDAt (prefixTree sl) q"
  by (simp add: storeWordToDB_def split: prod.splits sum.splits)

lemma storeWordToDB_wf:
  "wfTrie (prefixTree sl) \<Longrightarrow> wfTrie (prefixTree (snd (storeWordToDB gw now w sl)))"
  by (simp add: storeWordToDB_def wf_updateAt split: prod.splits sum.splits)

lemma sweepWord_frame [simp]:
  "timeout (sweepWord gw now w sl) = timeout sl"
  "lastSeenAt (prefixTree (sweepWord gw now w sl)) q = lastSeenAt (prefixTree sl) q"
  "hasNode (prefixTree (sweepWord gw now w sl)) q = hasNode (prefixTree sl) q"
  by (simp_all add: sweepWord_def split: option.splits)

lemma sweepWord_other:
  "q \<noteq> w \<Longrightarrow> dbIDAt (prefixTree (sweepWord gw now w sl)) q = dbIDAt (prefixTree sl) q"
  "q \<noteq> w \<Longrightarrow> isEndAt (prefixTree (sweepWord gw now w sl)) q = isEndAt (prefixTree sl) q"
  by (simp_all add: sweepWord_def storeWordToDB_dbIDAt_other split: option.splits)

lemma sweepWord_wf:
  "wfTrie (prefixTree sl) \<Longrightarrow> wfTrie (prefixTree (sweepWord gw now w sl))"
  by (simp add: sweepWord_def storeWordToDB_wf wf_updateAt split: option.splits)

lemma sweepWord_isPrefix:
  "wfTrie (prefixTree sl) \<Longrightarrow>
   isPrefixOfAnyWord q (sweepWord gw now w sl) = isPrefixOfAnyWord q sl"
  by (simp add: isPrefixOfAnyWord_iff sweepWord_wf)

text \<open>The three ways through the body of the loop.\<close>

lemma sweepWord_skip:
  "dbIDAt (prefixTree sl) w \<noteq> None \<or> \<not> hasNode (prefixTree sl) w \<or> isPrefixOfAnyWord w sl \<Longrightarrow>
   sweepWord gw now w sl = sl"
  by (auto simp: sweepWord_def dbIDAt_def hasNode_def split: option.splits)

lemma sweepWord_stored:
  assumes "hasNode (prefixTree sl) w" "dbIDAt (prefixTree sl) w = None"
    "\<not> isPrefixOfAnyWord w sl" "gwInsertOrReplace gw w now now (db sl) = (Inr i, d)"
  shows "sweepWord gw now w sl =
    sl\<lparr>db := d,
       prefixTree := updateAt w (setDbID (Some i)) (updateAt w (setIsEndOfWord True) (prefixTree sl))\<rparr>"
  using assms
  by (auto simp: sweepWord_def storeWordToDB_def dbIDAt_def hasNode_def split: option.splits)

lemma sweepWord_failed:
  assumes "hasNode (prefixTree sl) w" "dbIDAt (prefixTree sl) w = None"
    "\<not> isPrefixOfAnyWord w sl" "gwInsertOrReplace gw w now now (db sl) = (Inl e, d)"
  shows "sweepWord gw now w sl =
    sl\<lparr>db := d, prefixTree := updateAt w (setIsEndOfWord True) (prefixTree sl)\<rparr>"
  using assms
  by (auto simp: sweepWord_def storeWordToDB_def dbIDAt_def hasNode_def split: option.splits)

lemma fold_sweepWord_frame [simp]:
  "timeout (fold (sweepWord gw now) ws sl) = timeout sl"
  "lastSeenAt (prefixTree (fold (sweepWord gw now) ws sl)) q = lastSeenAt (prefixTree sl) q"
  "hasNode (prefixTree (fold (sweepWord gw now) ws sl)) q = hasNode (prefixTree sl) q"
  by (induction ws arbitrary: sl) simp_all

lemma fold_sweepWord_wf:
  "wfTrie (prefixTree sl) \<Longrightarrow> wfTrie (prefixTree (fold (sweepWord gw now) ws sl))"
  by (induction ws arbitrary: sl) (simp_all add: sweepWord_wf)

lemma fold_sweepWord_isPrefix:
  "wfTrie (prefixTree sl) \<Longrightarrow>
   isPrefixOfAnyWord q (fold (sweepWord gw now) ws sl) = isPrefixOfAnyWord q sl"
  by (simp add: isPrefixOfAnyWord_iff fold_sweepWord_wf)

lemma fold_sweepWord_other:
  "q \<notin> set ws \<Longrightarrow>
     dbIDAt (prefixTree (fold (sweepWord gw now) ws sl)) q = dbIDAt (prefixTree sl) q"
  "q \<notin> set ws \<Longrightarrow>
     isEndAt (prefixTree (fold (sweepWord gw now) ws sl)) q = isEndAt (prefixTree sl) q"
  by (induction ws arbitrary: sl) (simp_all add: sweepWord_other)

lemma processTimedOutWords_fold:
  "processTimedOutWords gw now sl =
     fold (sweepWord gw now) (findAllTimedOutWords (prefixTree sl) [] (now - timeout sl)) sl"
  by (simp add: processTimedOutWords_def Let_def)

lemma processTimedOutWords_frame [simp]:
  "timeout (processTimedOutWords gw now sl) = timeout sl"
  "lastSeenAt (prefixTree (processTimedOutWords gw now sl)) q = lastSeenAt (prefixTree sl) q"
  "hasNode (prefixTree (processTimedOutWords gw now sl)) q = hasNode (prefixTree sl) q"
  by (simp_all add: processTimedOutWords_fold)

lemma processTimedOutWords_wf:
  "wfTrie (prefixTree sl) \<Longrightarrow> wfTrie (prefixTree (processTimedOutWords gw now sl))"
  by (simp add: processTimedOutWords_fold fold_sweepWord_wf)

lemma processTimedOutWords_isPrefix:
  "wfTrie (prefixTree sl) \<Longrightarrow>
   isPrefixOfAnyWord q (processTimedOutWords gw now sl) = isPrefixOfAnyWord q sl"
  by (simp add: isPrefixOfAnyWord_iff processTimedOutWords_wf)

section \<open>What a submission changes\<close>

lemma hweLoop_frame:
  "timeout (snd (hweLoop gw now word pre rest sl)) = timeout sl \<and>
   lastSeenAt (prefixTree (snd (hweLoop gw now word pre rest sl))) q = lastSeenAt (prefixTree sl) q \<and>
   hasNode (prefixTree (snd (hweLoop gw now word pre rest sl))) q = hasNode (prefixTree sl) q \<and>
   isEndAt (prefixTree (snd (hweLoop gw now word pre rest sl))) q = isEndAt (prefixTree sl) q"
proof (induction rest arbitrary: pre sl)
  case Nil
  then show ?case by simp
next
  case (Cons c rest)
  show ?case
    by (simp add: Cons.IH split: option.splits prod.splits)
qed

lemma hweLoop_wf:
  "wfTrie (prefixTree sl) \<Longrightarrow> wfTrie (prefixTree (snd (hweLoop gw now word pre rest sl)))"
proof (induction rest arbitrary: pre sl)
  case Nil
  then show ?case by simp
next
  case (Cons c rest)
  then show ?case
    by (auto simp: wf_updateAt split: option.splits prod.splits)
qed

text \<open>
  The loop changes nothing when no node that it passes before the last one is a stored
  word (isEndOfWord with a dbID).
\<close>

definition storedAt :: "TrieNode \<Rightarrow> string \<Rightarrow> bool" where
  "storedAt n p = (isEndAt n p \<and> dbIDAt n p \<noteq> None)"

lemma hweLoop_idle:
  "(\<And>k. 0 < k \<Longrightarrow> k < length rest \<Longrightarrow> \<not> storedAt (prefixTree sl) (pre @ take k rest)) \<Longrightarrow>
   hweLoop gw now word pre rest sl = (None, sl)"
proof (induction rest arbitrary: pre)
  case Nil
  then show ?case by simp
next
  case (Cons c rest)
  have step: "hweLoop gw now word (pre @ [c]) rest sl = (None, sl)"
  proof (rule Cons.IH)
    fix k assume k: "0 < k" "k < length rest"
    with Cons.prems [of "Suc k"] show "\<not> storedAt (prefixTree sl) ((pre @ [c]) @ take k rest)"
      by simp
  qed
  show ?case
  proof (cases "rest = []")
    case True
    then show ?thesis by (simp split: option.splits)
  next
    case False
    with Cons.prems [of 1] have "\<not> storedAt (prefixTree sl) (pre @ [c])"
      by (cases rest) simp_all
    with step show ?thesis
      by (auto simp: storedAt_def isEndAt_def dbIDAt_def split: option.splits)
  qed
qed

text \<open>
  \<open>normalizeWord word\<close> is the value \<open>strings.ToLower(strings.TrimSpace(word))\<close> that \<open>LogSearch\<close>
  goes on with, and \<open>touch\<close> is what its lines 74 to 86 do to the trie.
\<close>

definition normalizeWord :: "string \<Rightarrow> string" where
  "normalizeWord word = ToLower (TrimSpace word)"

definition touch :: "time \<Rightarrow> string \<Rightarrow> TrieNode \<Rightarrow> TrieNode" where
  "touch now w n = updateAt w (setLastSeen now) (traverseBuild w n)"

lemma touch_views [simp]:
  "hasNode (touch now w n) q = (hasNode n q \<or> prefix q w)"
  "lastSeenAt (touch now w n) q = (if q = w then now else lastSeenAt n q)"
  "dbIDAt (touch now w n) q = dbIDAt n q"
  "isEndAt (touch now w n) q = isEndAt n q"
  "storedAt (touch now w n) q = storedAt n q"
  by (simp_all add: touch_def storedAt_def)

lemma touch_wf: "wfTrie n \<Longrightarrow> wfTrie (touch now w n)"
  by (simp add: touch_def wf_updateAt wf_traverseBuild)

lemma LogSearch_empty [simp]: "LogSearch gw now [] sl = (None, sl)"
  by (simp add: LogSearch_def)

lemma LogSearch_unfold:
  "word \<noteq> [] \<Longrightarrow>
   LogSearch gw now word sl =
     (case hweLoop gw now (normalizeWord word) [] (normalizeWord word)
             (sl\<lparr>prefixTree := touch now (normalizeWord word) (prefixTree sl)\<rparr>) of
        (Some e, sl2) \<Rightarrow> (Some (Wrapped ''failed to handle word extension'' e), sl2)
      | (None, sl2) \<Rightarrow> (None, sl2))"
  by (simp add: LogSearch_def handleWordExtension_def normalizeWord_def touch_def Let_def)

lemma snd_LogSearch:
  "word \<noteq> [] \<Longrightarrow>
   snd (LogSearch gw now word sl) =
     snd (hweLoop gw now (normalizeWord word) [] (normalizeWord word)
            (sl\<lparr>prefixTree := touch now (normalizeWord word) (prefixTree sl)\<rparr>))"
  by (simp add: LogSearch_unfold split: prod.splits option.splits)

lemma LogSearch_frame:
  "timeout (snd (LogSearch gw now word sl)) = timeout sl"
  "word \<noteq> [] \<Longrightarrow>
   lastSeenAt (prefixTree (snd (LogSearch gw now word sl))) q =
     (if q = normalizeWord word then now else lastSeenAt (prefixTree sl) q)"
  "word \<noteq> [] \<Longrightarrow>
   hasNode (prefixTree (snd (LogSearch gw now word sl))) q =
     (hasNode (prefixTree sl) q \<or> prefix q (normalizeWord word))"
  "isEndAt (prefixTree (snd (LogSearch gw now word sl))) q = isEndAt (prefixTree sl) q"
  by (cases "word = []"; simp add: snd_LogSearch hweLoop_frame)+

lemma LogSearch_wf:
  "wfTrie (prefixTree sl) \<Longrightarrow> wfTrie (prefixTree (snd (LogSearch gw now word sl)))"
  by (cases "word = []") (simp_all add: snd_LogSearch hweLoop_wf touch_wf)

lemma LogSearch_idle:
  assumes "word \<noteq> []"
    and "\<And>k. 0 < k \<Longrightarrow> k < length (normalizeWord word) \<Longrightarrow>
           \<not> storedAt (prefixTree sl) (take k (normalizeWord word))"
  shows "LogSearch gw now word sl =
    (None, sl\<lparr>prefixTree := touch now (normalizeWord word) (prefixTree sl)\<rparr>)"
proof -
  have "hweLoop gw now (normalizeWord word) [] (normalizeWord word)
          (sl\<lparr>prefixTree := touch now (normalizeWord word) (prefixTree sl)\<rparr>) =
        (None, sl\<lparr>prefixTree := touch now (normalizeWord word) (prefixTree sl)\<rparr>)"
    by (rule hweLoop_idle) (simp add: assms(2))
  with assms(1) show ?thesis by (simp add: LogSearch_unfold)
qed

section \<open>The mock database and a sweep with one word to store\<close>

definition dbWords :: "MockPostgresDB \<Rightarrow> string list" where
  "dbWords d = map (\<lambda>e. Word (snd e)) (searches d)"

lemma storedWords_mock [simp]: "storedWords mockGateway sl = dbWords (db sl)"
  by (simp add: storedWords_def GetStoredSearches_def mockGateway_def GetAllSearchedWords_def
      dbWords_def)

lemma mock_sel [simp]:
  "gwInsertOrReplace mockGateway = InsertOrReplace"
  "gwUpdate mockGateway = Update"
  "gwGetAllSearchedWords mockGateway = GetAllSearchedWords"
  "gwCreateTable mockGateway = CreateTable"
  by (simp_all add: mockGateway_def)

lemma update_mem: "(k, v) \<in> set (AList.update k v al)"
  by (induction al) auto

lemma InsertOrReplace_succeeds: "\<exists>i. fst (InsertOrReplace w a b d) = Inr i"
  by (simp add: InsertOrReplace_def split: option.splits)

lemma update_has_word:
  "Word r \<in> set (map (\<lambda>e. Word (snd e)) (AList.update k r al))"
proof -
  have "(k, r) \<in> set (AList.update k r al)" by (rule update_mem)
  then have "Word (snd (k, r)) \<in> (\<lambda>e. Word (snd e)) ` set (AList.update k r al)"
    by (rule imageI)
  then show ?thesis by simp
qed

lemma InsertOrReplace_has_word: "w \<in> set (dbWords (snd (InsertOrReplace w a b d)))"
proof (cases "find (\<lambda>e. Word (snd e) = w) (searches d)")
  case None
  then show ?thesis
    using update_has_word [of "\<lparr>ID = nextID d, Word = w, FirstSearchedAt = a, LastUpdatedAt = b,
      SearchCount = 1\<rparr>" "nextID d" "searches d"]
    by (simp add: InsertOrReplace_def dbWords_def)
next
  case (Some e)
  then have w: "Word (snd e) = w" by (auto simp: find_Some_iff)
  with Some show ?thesis
    using update_has_word [of "(snd e)\<lparr>LastUpdatedAt := b, SearchCount := SearchCount (snd e) + 1\<rparr>"
      "fst e" "searches d"]
    by (simp add: InsertOrReplace_def dbWords_def)
qed

lemma fold_sweepWord_skip:
  "(\<And>x. x \<in> set ws \<Longrightarrow>
      dbIDAt (prefixTree sl) x \<noteq> None \<or> \<not> hasNode (prefixTree sl) x \<or> isPrefixOfAnyWord x sl) \<Longrightarrow>
   fold (sweepWord gw now) ws sl = sl"
  by (induction ws) (simp_all add: sweepWord_skip)

lemma fold_sweepWord_single:
  assumes wf: "wfTrie (prefixTree sl)"
    and w: "w \<in> set ws" "hasNode (prefixTree sl) w" "dbIDAt (prefixTree sl) w = None"
      "\<not> isPrefixOfAnyWord w sl"
    and ok: "gwInsertOrReplace gw w now now (db sl) = (Inr i, d)"
    and others: "\<And>x. x \<in> set ws \<Longrightarrow> x \<noteq> w \<Longrightarrow>
      dbIDAt (prefixTree sl) x \<noteq> None \<or> \<not> hasNode (prefixTree sl) x \<or> isPrefixOfAnyWord x sl"
  shows "fold (sweepWord gw now) ws sl = sweepWord gw now w sl"
  using w(1) others
proof (induction ws)
  case Nil
  then show ?case by simp
next
  case (Cons x xs)
  show ?case
  proof (cases "x = w")
    case True
    have st: "sweepWord gw now w sl =
      sl\<lparr>db := d,
         prefixTree := updateAt w (setDbID (Some i)) (updateAt w (setIsEndOfWord True) (prefixTree sl))\<rparr>"
      using w(2,3,4) ok by (rule sweepWord_stored)
    have "fold (sweepWord gw now) xs (sweepWord gw now w sl) = sweepWord gw now w sl"
    proof (rule fold_sweepWord_skip)
      fix y assume y: "y \<in> set xs"
      show "dbIDAt (prefixTree (sweepWord gw now w sl)) y \<noteq> None \<or>
            \<not> hasNode (prefixTree (sweepWord gw now w sl)) y \<or>
            isPrefixOfAnyWord y (sweepWord gw now w sl)"
      proof (cases "y = w")
        case True
        with st w(2) show ?thesis by simp
      next
        case False
        with Cons.prems(2) [of y] y
        show ?thesis by (simp add: sweepWord_other sweepWord_isPrefix wf)
      qed
    qed
    with True show ?thesis by simp
  next
    case False
    with Cons.prems(2) [of x] have "sweepWord gw now x sl = sl"
      by (intro sweepWord_skip) simp
    moreover from False Cons.prems(1) have "w \<in> set xs" by simp
    ultimately show ?thesis using Cons.IH Cons.prems(2) by simp
  qed
qed

lemma TrimSpace_spaces: "list_all isSpace word \<Longrightarrow> TrimSpace word = []"
proof -
  assume "list_all isSpace word"
  then have "dropWhile isSpace word = []" by (simp add: list_all_iff)
  then show ?thesis unfolding TrimSpace_def by (simp only: rev.simps dropWhile.simps)
qed

lemma hasNode_Nil [simp]: "hasNode n []"
  by (simp add: hasNode_def)

lemma dbIDAt_Nil [simp]: "dbIDAt n [] = dbID n"
  by (simp add: dbIDAt_def)

lemma isEndAt_Nil [simp]: "isEndAt n [] = isEndOfWord n"
  by (simp add: isEndAt_def)

lemma views_newNode [simp]:
  "lastSeenAt newNode q = 0" "dbIDAt newNode q = None" "isEndAt newNode q = False"
  "hasNode newNode q = (q = [])"
  by (simp_all add: lastSeenAt_def dbIDAt_def isEndAt_def hasNode_def nodeAt_newNode)
     (simp_all add: newNode_def)

lemma InsertOrReplace_cases:
  obtains i d' where "InsertOrReplace w a b d = (Inr i, d')"
  using InsertOrReplace_succeeds [of w a b d] by (cases "InsertOrReplace w a b d") auto

text \<open>What \<open>NewSearchLogger(tmo)\<close> returns: an empty trie over an empty database.\<close>

definition emptyLogger :: "duration \<Rightarrow> MockPostgresDB SearchLogger" where
  "emptyLogger tmo = \<lparr>prefixTree = newNode, db = NewMockPostgresDB, timeout = tmo\<rparr>"

lemma NewSearchLogger_empty: "NewSearchLogger now tmo = Inr (emptyLogger tmo)"
  by (simp add: NewSearchLogger_def NewSearchLoggerWithDB_def loadExistingWords_def
      CreateTable_def GetAllSearchedWords_def NewMockPostgresDB_def emptyLogger_def)

lemma emptyLogger_sel [simp]:
  "prefixTree (emptyLogger tmo) = newNode" "db (emptyLogger tmo) = NewMockPostgresDB"
  "timeout (emptyLogger tmo) = tmo"
  by (simp_all add: emptyLogger_def)

section \<open>A word of whitespace (C10)\<close>



section \<open>The steps of \<open>handleWordExtension\<close>\<close>

lemma storedAt_dbIDAt: "storedAt n p \<Longrightarrow> \<exists>i. dbIDAt n p = Some i"
  by (auto simp: storedAt_def)

lemma hweLoop_step_fail:
  assumes "storedAt (prefixTree sl) (pre @ [c])" "dbIDAt (prefixTree sl) (pre @ [c]) = Some i"
    "rest \<noteq> []" "gwUpdate gw i word now (db sl) = (Some e, d)"
  shows "hweLoop gw now word pre (c # rest) sl =
    (Some (Wrapped ''failed to update stored word'' e), sl\<lparr>db := d\<rparr>)"
  using assms
  by (auto simp: storedAt_def isEndAt_def dbIDAt_def split: option.splits)

lemma hweLoop_step_skip:
  assumes "hasNode (prefixTree sl) (pre @ [c])" "\<not> storedAt (prefixTree sl) (pre @ [c])"
  shows "hweLoop gw now word pre (c # rest) sl = hweLoop gw now word (pre @ [c]) rest sl"
  using assms
  by (auto simp: storedAt_def isEndAt_def dbIDAt_def hasNode_def split: option.splits)

lemma hweLoop_step_relink:
  assumes "storedAt (prefixTree sl) (pre @ [c])" "dbIDAt (prefixTree sl) (pre @ [c]) = Some i"
    "rest \<noteq> []" "gwUpdate gw i word now (db sl) = (None, d)"
  shows "hweLoop gw now word pre (c # rest) sl =
    hweLoop gw now word (pre @ [c]) rest
      (sl\<lparr>db := d,
          prefixTree := updateAt (pre @ [c]) (setDbID None)
                          (updateAt word (setDbID (Some i)) (prefixTree sl))\<rparr>)"
  using assms
  by (auto simp: storedAt_def isEndAt_def dbIDAt_def split: option.splits)

declare hweLoop.simps(2) [simp del]

lemma hweLoop_skip:
  assumes "\<And>j. 0 < j \<Longrightarrow> j \<le> length r1 \<Longrightarrow>
      hasNode (prefixTree sl) (pre @ take j r1) \<and> \<not> storedAt (prefixTree sl) (pre @ take j r1)"
  shows "hweLoop gw now word pre (r1 @ r2) sl = hweLoop gw now word (pre @ r1) r2 sl"
  using assms
proof (induction r1 arbitrary: pre)
  case Nil
  then show ?case by simp
next
  case (Cons a r1)
  from Cons.prems [of 1] have "hweLoop gw now word pre (a # r1 @ r2) sl =
    hweLoop gw now word (pre @ [a]) (r1 @ r2) sl"
    by (intro hweLoop_step_skip) simp_all
  also have "\<dots> = hweLoop gw now word ((pre @ [a]) @ r1) r2 sl"
  proof (rule Cons.IH)
    fix j assume "0 < j" "j \<le> length r1"
    with Cons.prems [of "Suc j"]
    show "hasNode (prefixTree sl) ((pre @ [a]) @ take j r1) \<and>
          \<not> storedAt (prefixTree sl) ((pre @ [a]) @ take j r1)" by simp
  qed
  finally show ?case by simp
qed

text \<open>
  A stored node further down the path whose rename the gateway refuses: the loop ends with
  an error, at that node or before it, and the node keeps its reference.
\<close>

lemma hweLoop_fails:
  assumes "word = pre @ r1 @ c # r2" "r2 \<noteq> []"
    and "storedAt (prefixTree sl) (pre @ r1 @ [c])"
    and "dbIDAt (prefixTree sl) (pre @ r1 @ [c]) = Some i"
    and "\<And>d0. fst (gwUpdate gw i word now d0) \<noteq> None"
    and "\<And>j. j \<le> length r1 \<Longrightarrow> hasNode (prefixTree sl) (pre @ take j r1)"
  shows "fst (hweLoop gw now word pre (r1 @ c # r2) sl) \<noteq> None \<and>
    storedAt (prefixTree (snd (hweLoop gw now word pre (r1 @ c # r2) sl))) (pre @ r1 @ [c]) \<and>
    dbIDAt (prefixTree (snd (hweLoop gw now word pre (r1 @ c # r2) sl))) (pre @ r1 @ [c]) = Some i"
  using assms
proof (induction r1 arbitrary: pre sl)
  case Nil
  obtain e d where upd: "gwUpdate gw i word now (db sl) = (Some e, d)"
    using Nil.prems(5) [of "db sl"] by (cases "gwUpdate gw i word now (db sl)") auto
  have "hweLoop gw now word pre (c # r2) sl =
    (Some (Wrapped ''failed to update stored word'' e), sl\<lparr>db := d\<rparr>)"
    using Nil.prems(3,4,2) upd by (intro hweLoop_step_fail) simp_all
  with Nil.prems(3,4) show ?case by simp
next
  case (Cons a r1)
  let ?p = "pre @ (a # r1) @ [c]"
  have node: "hasNode (prefixTree sl) (pre @ [a])" using Cons.prems(6) [of 1] by simp
  have IH: "fst (hweLoop gw now word (pre @ [a]) (r1 @ c # r2) sl') \<noteq> None \<and>
      storedAt (prefixTree (snd (hweLoop gw now word (pre @ [a]) (r1 @ c # r2) sl'))) ?p \<and>
      dbIDAt (prefixTree (snd (hweLoop gw now word (pre @ [a]) (r1 @ c # r2) sl'))) ?p = Some i"
    if "storedAt (prefixTree sl') ?p" "dbIDAt (prefixTree sl') ?p = Some i"
      "\<And>q. hasNode (prefixTree sl') q = hasNode (prefixTree sl) q" for sl'
  proof -
    have "fst (hweLoop gw now word (pre @ [a]) (r1 @ c # r2) sl') \<noteq> None \<and>
      storedAt (prefixTree (snd (hweLoop gw now word (pre @ [a]) (r1 @ c # r2) sl')))
        ((pre @ [a]) @ r1 @ [c]) \<and>
      dbIDAt (prefixTree (snd (hweLoop gw now word (pre @ [a]) (r1 @ c # r2) sl')))
        ((pre @ [a]) @ r1 @ [c]) = Some i"
    proof (rule Cons.IH)
      show "word = (pre @ [a]) @ r1 @ c # r2" using Cons.prems(1) by simp
      show "r2 \<noteq> []" by (rule Cons.prems(2))
      show "storedAt (prefixTree sl') ((pre @ [a]) @ r1 @ [c])" using that(1) by simp
      show "dbIDAt (prefixTree sl') ((pre @ [a]) @ r1 @ [c]) = Some i" using that(2) by simp
      show "fst (gwUpdate gw i word now d0) \<noteq> None" for d0 by (rule Cons.prems(5))
      show "hasNode (prefixTree sl') ((pre @ [a]) @ take j r1)" if "j \<le> length r1" for j
        using Cons.prems(6) [of "Suc j"] that \<open>\<And>q. hasNode (prefixTree sl') q = hasNode (prefixTree sl) q\<close>
        by simp
    qed
    then show ?thesis by simp
  qed
  show ?case
  proof (cases "storedAt (prefixTree sl) (pre @ [a])")
    case False
    with node have "hweLoop gw now word pre (a # r1 @ c # r2) sl =
      hweLoop gw now word (pre @ [a]) (r1 @ c # r2) sl"
      by (intro hweLoop_step_skip)
    with IH [of sl] Cons.prems(3,4) show ?thesis by simp
  next
    case True
    then obtain i' where i': "dbIDAt (prefixTree sl) (pre @ [a]) = Some i'"
      by (auto dest: storedAt_dbIDAt)
    obtain r d where upd: "gwUpdate gw i' word now (db sl) = (r, d)"
      by (cases "gwUpdate gw i' word now (db sl)")
    show ?thesis
    proof (cases r)
      case (Some e)
      with True i' upd have "hweLoop gw now word pre (a # r1 @ c # r2) sl =
        (Some (Wrapped ''failed to update stored word'' e), sl\<lparr>db := d\<rparr>)"
        by (intro hweLoop_step_fail) simp_all
      with Cons.prems(3,4) show ?thesis by simp
    next
      case None
      let ?sl' = "sl\<lparr>db := d,
          prefixTree := updateAt (pre @ [a]) (setDbID None)
                          (updateAt word (setDbID (Some i')) (prefixTree sl))\<rparr>"
      from None True i' upd have "hweLoop gw now word pre (a # r1 @ c # r2) sl =
        hweLoop gw now word (pre @ [a]) (r1 @ c # r2) ?sl'"
        by (intro hweLoop_step_relink) simp_all
      moreover have "?p \<noteq> pre @ [a]" "?p \<noteq> word"
        using Cons.prems(1,2) by auto
      then have "storedAt (prefixTree ?sl') ?p" "dbIDAt (prefixTree ?sl') ?p = Some i"
        using Cons.prems(3,4) by (simp_all add: storedAt_def)
      ultimately show ?thesis using IH [of ?sl'] by simp
    qed
  qed
qed

text \<open>
  For the witnesses of the failure branches: \<open>MockPostgresDB\<close> behind a connection that loses
  the renames of the ids in \<open>badIds\<close> and the upserts of the words in \<open>badWords\<close>.
\<close>

definition flakyGateway :: "int64 list \<Rightarrow> string list \<Rightarrow> MockPostgresDB gateway" where
  "flakyGateway badIds badWords =
     \<lparr>gwCreateTable = CreateTable,
      gwInsertOrReplace =
        (\<lambda>w a b d. if w \<in> set badWords then (Inl (Failure ''connection lost''), d)
                   else InsertOrReplace w a b d),
      gwUpdate =
        (\<lambda>i w t d. if i \<in> set badIds then (Some (Failure ''connection lost''), d)
                   else Update i w t d),
      gwGetAllSearchedWords = GetAllSearchedWords\<rparr>"

lemma strict_prefix_take_snoc: "strict_prefix (take j xs) (xs @ [x])"
proof -
  have "prefix (take j xs) xs" by (rule take_is_prefix)
  moreover have "strict_prefix xs (xs @ [x])" by (rule prefix_snocD) simp
  ultimately show ?thesis by (rule prefix_order.le_less_trans)
qed

section \<open>A failed rename (C7)\<close>

text \<open>
  C7, as amended. A word is submitted, and the gateway refuses the rename of the record of
  a stored proper prefix \<open>p\<close> of it (a node with isEndOfWord and a dbID). Then \<open>LogSearch\<close>
  returns an error, the node of the word has the submission time as its timestamp, and \<open>p\<close>
  keeps its reference. When no shorter prefix is stored, so that this rename is the first
  that the call attempts, no reference in the trie has changed: the node of the word has
  acquired none.
\<close>

theorem C7_failed_rename:
  assumes word: "word \<noteq> []"
    and p: "p \<noteq> []" "strict_prefix p (normalizeWord word)"
    and st: "isEndAt (prefixTree sl) p" "dbIDAt (prefixTree sl) p = Some i"
    and fail: "\<And>d0. fst (gwUpdate gw i (normalizeWord word) now d0) \<noteq> None"
  shows "fst (LogSearch gw now word sl) \<noteq> None \<and>
    lastSeenAt (prefixTree (snd (LogSearch gw now word sl))) (normalizeWord word) = now \<and>
    dbIDAt (prefixTree (snd (LogSearch gw now word sl))) p = Some i \<and>
    ((\<forall>q. q \<noteq> [] \<and> strict_prefix q p \<longrightarrow>
          \<not> (isEndAt (prefixTree sl) q \<and> dbIDAt (prefixTree sl) q \<noteq> None)) \<longrightarrow>
     (\<forall>q. dbIDAt (prefixTree (snd (LogSearch gw now word sl))) q = dbIDAt (prefixTree sl) q))"
proof -
  let ?w = "normalizeWord word"
  let ?sl1 = "sl\<lparr>prefixTree := touch now ?w (prefixTree sl)\<rparr>"
  from p(2) obtain r2 where r2: "?w = p @ r2" "r2 \<noteq> []"
    by (auto simp: strict_prefix_def prefix_def)
  from p(1) obtain r1 c where r1: "p = r1 @ [c]"
    by (cases p rule: rev_cases) auto
  have w: "?w = r1 @ c # r2" using r1 r2 by simp
  have stored: "storedAt (prefixTree ?sl1) p" "dbIDAt (prefixTree ?sl1) p = Some i"
    using st by (simp_all add: storedAt_def)
  have nodes: "hasNode (prefixTree ?sl1) (take j r1)" for j
    by (simp add: w) (metis append_take_drop_id prefixI prefix_order.dual_order.trans append.assoc)
  have loop: "fst (hweLoop gw now ?w [] (r1 @ c # r2) ?sl1) \<noteq> None \<and>
    storedAt (prefixTree (snd (hweLoop gw now ?w [] (r1 @ c # r2) ?sl1))) ([] @ r1 @ [c]) \<and>
    dbIDAt (prefixTree (snd (hweLoop gw now ?w [] (r1 @ c # r2) ?sl1))) ([] @ r1 @ [c]) = Some i"
  proof (rule hweLoop_fails)
    show "?w = [] @ r1 @ c # r2" using w by simp
    show "r2 \<noteq> []" by (rule r2(2))
    show "storedAt (prefixTree ?sl1) ([] @ r1 @ [c])" using stored(1) r1 by simp
    show "dbIDAt (prefixTree ?sl1) ([] @ r1 @ [c]) = Some i" using stored(2) r1 by simp
    show "fst (gwUpdate gw i ?w now d0) \<noteq> None" for d0 by (rule fail)
    show "hasNode (prefixTree ?sl1) ([] @ take j r1)" for j using nodes [of j] by simp
  qed
  have unf: "LogSearch gw now word sl =
     (case hweLoop gw now ?w [] (r1 @ c # r2) ?sl1 of
        (Some e, sl2) \<Rightarrow> (Some (Wrapped ''failed to handle word extension'' e), sl2)
      | (None, sl2) \<Rightarrow> (None, sl2))"
    using LogSearch_unfold [OF word, of gw now sl] w by simp
  have sndL: "snd (LogSearch gw now word sl) = snd (hweLoop gw now ?w [] (r1 @ c # r2) ?sl1)"
    using snd_LogSearch [OF word, of gw now sl] w by simp
  have err: "fst (LogSearch gw now word sl) \<noteq> None"
    using loop by (cases "hweLoop gw now ?w [] (r1 @ c # r2) ?sl1") (auto simp: unf)
  have seen: "lastSeenAt (prefixTree (snd (LogSearch gw now word sl))) ?w = now"
    using LogSearch_frame(2) [OF word, of gw now sl ?w] by simp
  have keep: "dbIDAt (prefixTree (snd (LogSearch gw now word sl))) p = Some i"
    using loop r1 by (simp add: sndL)
  have frame: "\<forall>q. dbIDAt (prefixTree (snd (LogSearch gw now word sl))) q = dbIDAt (prefixTree sl) q"
    if first: "\<forall>q. q \<noteq> [] \<and> strict_prefix q p \<longrightarrow>
          \<not> (isEndAt (prefixTree sl) q \<and> dbIDAt (prefixTree sl) q \<noteq> None)"
  proof -
    obtain e d where upd: "gwUpdate gw i ?w now (db sl) = (Some e, d)"
      using fail [of "db sl"] by (cases "gwUpdate gw i ?w now (db sl)") auto
    have "hweLoop gw now ?w [] (r1 @ c # r2) ?sl1 = hweLoop gw now ?w ([] @ r1) (c # r2) ?sl1"
    proof (rule hweLoop_skip)
      fix j assume j: "0 < j" "j \<le> length r1"
      then have "take j r1 \<noteq> []" by auto
      moreover have "strict_prefix (take j r1) p"
        unfolding r1 by (rule strict_prefix_take_snoc)
      ultimately have "\<not> storedAt (prefixTree sl) (take j r1)"
        using first by (simp add: storedAt_def)
      with nodes [of j]
      show "hasNode (prefixTree ?sl1) ([] @ take j r1) \<and>
            \<not> storedAt (prefixTree ?sl1) ([] @ take j r1)" by simp
    qed
    also have "\<dots> = (Some (Wrapped ''failed to update stored word'' e), ?sl1\<lparr>db := d\<rparr>)"
      using stored r1 r2(2) upd by (intro hweLoop_step_fail) simp_all
    finally show ?thesis by (simp add: sndL)
  qed
  from err seen keep frame show ?thesis by blast
qed

text \<open>
  The logger after "a" was submitted and stored under id 1, before "ab" is submitted through a
  gateway that loses the renames of id 1.
\<close>

definition c7_stored_a :: "MockPostgresDB SearchLogger" where
  "c7_stored_a = run mockGateway [Submit 2 ''a'', Tick 13] (emptyLogger 10)"

lemmas eval_run = eval_defs hweLoop.simps(2) flakyGateway_def emptyLogger_def normalizeWord_def

lemma c7_stored_a_views:
  "isEndAt (prefixTree c7_stored_a) ''a''" "dbIDAt (prefixTree c7_stored_a) ''a'' = Some 1"
  "dbIDAt (prefixTree c7_stored_a) ''ab'' = None"
  by (simp_all add: c7_stored_a_def eval_run)

theorem C7_witness:
  "strict_prefix ''a'' (normalizeWord ''ab'') \<and>
   isEndAt (prefixTree c7_stored_a) ''a'' \<and> dbIDAt (prefixTree c7_stored_a) ''a'' = Some 1 \<and>
   fst (LogSearch (flakyGateway [1] []) 14 ''ab'' c7_stored_a) \<noteq> None \<and>
   lastSeenAt (prefixTree (snd (LogSearch (flakyGateway [1] []) 14 ''ab'' c7_stored_a))) ''ab'' = 14 \<and>
   dbIDAt (prefixTree (snd (LogSearch (flakyGateway [1] []) 14 ''ab'' c7_stored_a))) ''a'' = Some 1 \<and>
   dbIDAt (prefixTree (snd (LogSearch (flakyGateway [1] []) 14 ''ab'' c7_stored_a))) ''ab'' = None"
proof -
  have n: "normalizeWord ''ab'' = ''ab''" by (simp add: eval_run)
  have sp: "strict_prefix ''a'' (normalizeWord ''ab'')" by (simp add: n)
  have fail: "fst (gwUpdate (flakyGateway [1] []) 1 (normalizeWord ''ab'') 14 d0) \<noteq> None" for d0
    by (simp add: flakyGateway_def)
  have first: "\<forall>q. q \<noteq> [] \<and> strict_prefix q ''a'' \<longrightarrow>
      \<not> (isEndAt (prefixTree c7_stored_a) q \<and> dbIDAt (prefixTree c7_stored_a) q \<noteq> None)"
    by (auto simp: strict_prefix_def prefix_Cons)
  from C7_failed_rename [of "''ab''" "''a''" c7_stored_a 1 "flakyGateway [1] []" 14,
      OF _ _ sp c7_stored_a_views(1,2) fail] first
  show ?thesis using sp c7_stored_a_views n by simp
qed

text \<open>
  C7 as stated fails when a shorter stored prefix was relinked before the rename that fails.
  The rename of "a" to "ab" is lost, so "a" keeps id 1 and a tick stores "ab" under id 2; then
  "abc" is submitted while the renames of id 2 are lost: the rename of id 1 succeeds and its
  reference moves to the node of "abc" before the rename of id 2 fails.
\<close>

definition c7_two_stored :: "MockPostgresDB SearchLogger" where
  "c7_two_stored =
     run (flakyGateway [1] []) [Submit 2 ''a'', Tick 13, Submit 14 ''ab'', Tick 30] (emptyLogger 10)"

theorem C7_counterexample:
  "fst (LogSearch (flakyGateway [2] []) 31 ''abc'' c7_two_stored) \<noteq> None \<and>
   dbIDAt (prefixTree c7_two_stored) ''abc'' = None \<and>
   dbIDAt (prefixTree (snd (LogSearch (flakyGateway [2] []) 31 ''abc'' c7_two_stored))) ''abc'' = Some 1"
  by (simp add: c7_two_stored_def eval_run)

section \<open>References through a sweep\<close>

lemma sweepWord_keeps_None:
  assumes "\<And>d0. \<exists>e d1. gwInsertOrReplace gw w now now d0 = (Inl e, d1)"
    and "dbIDAt (prefixTree sl) w = None"
  shows "dbIDAt (prefixTree (sweepWord gw now x sl)) w = None"
proof (cases "x = w")
  case False
  with assms(2) show ?thesis by (simp add: sweepWord_other)
next
  case True
  show ?thesis
  proof (cases "\<not> hasNode (prefixTree sl) w \<or> isPrefixOfAnyWord w sl")
    case True
    then have "sweepWord gw now w sl = sl" by (intro sweepWord_skip) auto
    with \<open>x = w\<close> assms(2) show ?thesis by simp
  next
    case False
    obtain e d where "gwInsertOrReplace gw w now now (db sl) = (Inl e, d)"
      using assms(1) [of "db sl"] by auto
    with False assms(2) have "sweepWord gw now w sl =
      sl\<lparr>db := d, prefixTree := updateAt w (setIsEndOfWord True) (prefixTree sl)\<rparr>"
      by (intro sweepWord_failed) auto
    with \<open>x = w\<close> assms(2) show ?thesis by simp
  qed
qed

lemma fold_sweepWord_keeps_None:
  assumes "\<And>d0. \<exists>e d1. gwInsertOrReplace gw w now now d0 = (Inl e, d1)"
  shows "dbIDAt (prefixTree sl) w = None \<Longrightarrow>
    dbIDAt (prefixTree (fold (sweepWord gw now) ws sl)) w = None"
  by (induction ws arbitrary: sl) (simp_all add: sweepWord_keeps_None [OF assms])

lemma sweepWord_keeps_Some:
  "dbIDAt (prefixTree sl) q \<noteq> None \<Longrightarrow> dbIDAt (prefixTree (sweepWord gw now x sl)) q \<noteq> None"
  by (cases "x = q") (simp_all add: sweepWord_skip sweepWord_other)

lemma fold_sweepWord_keeps_Some:
  "dbIDAt (prefixTree sl) q \<noteq> None \<Longrightarrow>
   dbIDAt (prefixTree (fold (sweepWord gw now) ws sl)) q \<noteq> None"
proof (induction ws arbitrary: sl)
  case Nil
  then show ?case by simp
next
  case (Cons x xs)
  from Cons.prems have "dbIDAt (prefixTree (sweepWord gw now x sl)) q \<noteq> None"
    by (rule sweepWord_keeps_Some)
  then have "dbIDAt (prefixTree (fold (sweepWord gw now) xs (sweepWord gw now x sl))) q \<noteq> None"
    by (rule Cons.IH)
  then show ?case by simp
qed

lemma sweepWord_gets_ref:
  assumes "\<And>d0. \<exists>i d1. gwInsertOrReplace gw w now now d0 = (Inr i, d1)"
    and "hasNode (prefixTree sl) w" "\<not> isPrefixOfAnyWord w sl"
  shows "dbIDAt (prefixTree (sweepWord gw now w sl)) w \<noteq> None"
proof (cases "dbIDAt (prefixTree sl) w")
  case (Some i)
  then show ?thesis by (simp add: sweepWord_keeps_Some)
next
  case None
  obtain i d where "gwInsertOrReplace gw w now now (db sl) = (Inr i, d)"
    using assms(1) [of "db sl"] by auto
  with None assms(2,3) have "sweepWord gw now w sl =
    sl\<lparr>db := d,
       prefixTree := updateAt w (setDbID (Some i)) (updateAt w (setIsEndOfWord True) (prefixTree sl))\<rparr>"
    by (intro sweepWord_stored)
  with assms(2) show ?thesis by simp
qed

lemma fold_sweepWord_gets_ref:
  assumes ok: "\<And>d0. \<exists>i d1. gwInsertOrReplace gw w now now d0 = (Inr i, d1)"
  shows "wfTrie (prefixTree sl) \<Longrightarrow> w \<in> set ws \<Longrightarrow> hasNode (prefixTree sl) w \<Longrightarrow>
    \<not> isPrefixOfAnyWord w sl \<Longrightarrow>
    dbIDAt (prefixTree (fold (sweepWord gw now) ws sl)) w \<noteq> None"
proof (induction ws arbitrary: sl)
  case Nil
  then show ?case by simp
next
  case (Cons x xs)
  show ?case
  proof (cases "x = w")
    case True
    have "dbIDAt (prefixTree (sweepWord gw now w sl)) w \<noteq> None"
      using ok Cons.prems(3,4) by (rule sweepWord_gets_ref)
    with True show ?thesis by (simp add: fold_sweepWord_keeps_Some)
  next
    case False
    with Cons.prems have "w \<in> set xs" by simp
    moreover have "wfTrie (prefixTree (sweepWord gw now x sl))"
      using Cons.prems(1) by (rule sweepWord_wf)
    moreover have "\<not> isPrefixOfAnyWord w (sweepWord gw now x sl)"
      using Cons.prems(1,4) by (simp add: sweepWord_isPrefix)
    moreover have "hasNode (prefixTree (sweepWord gw now x sl)) w"
      using Cons.prems(3) by simp
    ultimately have "dbIDAt (prefixTree (fold (sweepWord gw now) xs (sweepWord gw now x sl))) w \<noteq> None"
      by (intro Cons.IH)
    then show ?thesis by simp
  qed
qed

lemma InsertOrReplace_ok: "\<exists>i d1. InsertOrReplace w a b d = (Inr i, d1)"
  by (simp add: InsertOrReplace_def split: option.splits)

lemma timedOut_seen:
  "wfTrie n \<Longrightarrow> w \<in> set (findAllTimedOutWords n [] cutoff) \<Longrightarrow>
   lastSeenAt n w \<noteq> 0 \<and> lastSeenAt n w < cutoff \<and> hasNode n w"
  by (auto simp: findAll_set) (auto simp: lastSeenAt_def hasNode_def split: option.splits)

section \<open>A failed store during a sweep (C8)\<close>

text \<open>
  C8: two of the timed-out words of a tick, \<open>w\<close> and \<open>w'\<close>, are both due to be stored (no
  dbID, not a prefix of a submitted word); the gateway refuses the upsert of \<open>w\<close> and
  accepts that of \<open>w'\<close>. Whichever comes first in the loop, after the tick \<open>w'\<close> holds a
  reference, so the failure did not stop the sweep, and \<open>w\<close> holds none and is among the
  timed-out words that a later tick collects.
\<close>

theorem C8_failed_store_does_not_stop_sweep:
  assumes wf: "wfTrie (prefixTree sl)"
    and w: "w \<in> set (findAllTimedOutWords (prefixTree sl) [] (now - timeout sl))"
      "dbIDAt (prefixTree sl) w = None" "\<not> isPrefixOfAnyWord w sl"
    and w': "w' \<in> set (findAllTimedOutWords (prefixTree sl) [] (now - timeout sl))"
      "dbIDAt (prefixTree sl) w' = None" "\<not> isPrefixOfAnyWord w' sl"
    and fail: "\<And>d0. \<exists>e d1. gwInsertOrReplace gw w now now d0 = (Inl e, d1)"
    and ok: "\<And>d0. \<exists>i d1. gwInsertOrReplace gw w' now now d0 = (Inr i, d1)"
    and later: "now \<le> now'"
  shows "dbIDAt (prefixTree (processTimedOutWords gw now sl)) w' \<noteq> None \<and>
    dbIDAt (prefixTree (processTimedOutWords gw now sl)) w = None \<and>
    w \<in> set (findAllTimedOutWords (prefixTree (processTimedOutWords gw now sl)) []
               (now' - timeout (processTimedOutWords gw now sl)))"
proof -
  let ?sl' = "processTimedOutWords gw now sl"
  have fold: "?sl' = fold (sweepWord gw now)
      (findAllTimedOutWords (prefixTree sl) [] (now - timeout sl)) sl"
    by (rule processTimedOutWords_fold)
  have "hasNode (prefixTree sl) w'" using timedOut_seen [OF wf w'(1)] by simp
  with wf w'(1,3) have 1: "dbIDAt (prefixTree ?sl') w' \<noteq> None"
    unfolding fold by (intro fold_sweepWord_gets_ref [OF ok])
  have 2: "dbIDAt (prefixTree ?sl') w = None"
    unfolding fold using w(2) by (intro fold_sweepWord_keeps_None [OF fail])
  have "lastSeenAt (prefixTree sl) w \<noteq> 0" "lastSeenAt (prefixTree sl) w < now' - timeout sl"
    using timedOut_seen [OF wf w(1)] later by auto
  then have 3: "w \<in> set (findAllTimedOutWords (prefixTree ?sl') [] (now' - timeout ?sl'))"
    using findAll_mem_if [of "prefixTree ?sl'" w "now' - timeout ?sl'" "[]"] by simp
  from 1 2 3 show ?thesis by simp
qed

definition c8_logger :: "MockPostgresDB SearchLogger" where
  "c8_logger = run mockGateway [Submit 1 ''x'', Submit 2 ''y''] (emptyLogger 10)"

theorem C8_witness:
  "findAllTimedOutWords (prefixTree c8_logger) [] (20 - timeout c8_logger) = [''x'', ''y''] \<and>
   dbIDAt (prefixTree (processTimedOutWords (flakyGateway [] [''x'']) 20 c8_logger)) ''y'' = Some 1 \<and>
   dbIDAt (prefixTree (processTimedOutWords (flakyGateway [] [''x'']) 20 c8_logger)) ''x'' = None \<and>
   ''x'' \<in> set (findAllTimedOutWords
      (prefixTree (processTimedOutWords (flakyGateway [] [''x'']) 20 c8_logger)) []
      (25 - timeout (processTimedOutWords (flakyGateway [] [''x'']) 20 c8_logger)))"
proof -
  let ?gw = "flakyGateway [] [''x'']"
  have wf: "wfTrie (prefixTree c8_logger)" by (simp add: c8_logger_def eval_run)
  have cs: "findAllTimedOutWords (prefixTree c8_logger) [] (20 - timeout c8_logger) = [''x'', ''y'']"
    by (simp add: c8_logger_def eval_run)
  have x: "dbIDAt (prefixTree c8_logger) ''x'' = None" "\<not> isPrefixOfAnyWord ''x'' c8_logger"
    and y: "dbIDAt (prefixTree c8_logger) ''y'' = None" "\<not> isPrefixOfAnyWord ''y'' c8_logger"
    by (simp_all add: c8_logger_def eval_run)
  have fail: "\<exists>e d1. gwInsertOrReplace ?gw ''x'' 20 20 d0 = (Inl e, d1)" for d0
    by (simp add: flakyGateway_def)
  have ok: "\<exists>i d1. gwInsertOrReplace ?gw ''y'' 20 20 d0 = (Inr i, d1)" for d0
    using InsertOrReplace_ok [of "''y''" 20 20 d0] by (simp add: flakyGateway_def)
  have "dbIDAt (prefixTree (processTimedOutWords ?gw 20 c8_logger)) ''y'' = Some 1"
    by (simp add: c8_logger_def eval_run)
  with C8_failed_store_does_not_stop_sweep [of c8_logger "''x''" 20 "''y''" ?gw 25, OF wf _ x _ y fail ok] cs
  show ?thesis by simp
qed

section \<open>Loading, and the timestamps along a run\<close>

text \<open>The words that the submissions of a run hand to the trie.\<close>

fun submittedWords :: "event list \<Rightarrow> string list" where
  "submittedWords [] = []"
| "submittedWords (Submit t w # evs) =
     (if w = [] then submittedWords evs else normalizeWord w # submittedWords evs)"
| "submittedWords (Tick t # evs) = submittedWords evs"

lemma buildTrieFromWord_views [simp]:
  "timeout (buildTrieFromWord now w sl) = timeout sl"
  "db (buildTrieFromWord now w sl) = db sl"
  "hasNode (prefixTree (buildTrieFromWord now w sl)) q = (hasNode (prefixTree sl) q \<or> prefix q w)"
  "lastSeenAt (prefixTree (buildTrieFromWord now w sl)) q =
     (if q = w then now else lastSeenAt (prefixTree sl) q)"
  "dbIDAt (prefixTree (buildTrieFromWord now w sl)) q = dbIDAt (prefixTree sl) q"
  "isEndAt (prefixTree (buildTrieFromWord now w sl)) q = (q = w \<or> isEndAt (prefixTree sl) q)"
  by (auto simp: buildTrieFromWord_def)

lemma buildTrieFromWord_wf:
  "wfTrie (prefixTree sl) \<Longrightarrow> wfTrie (prefixTree (buildTrieFromWord now w sl))"
  by (simp add: buildTrieFromWord_def wf_updateAt wf_traverseBuild)

lemma load_views [simp]:
  "timeout (fold (buildTrieFromWord now) ws sl) = timeout sl"
  "db (fold (buildTrieFromWord now) ws sl) = db sl"
  "lastSeenAt (prefixTree (fold (buildTrieFromWord now) ws sl)) q =
     (if q \<in> set ws then now else lastSeenAt (prefixTree sl) q)"
  "dbIDAt (prefixTree (fold (buildTrieFromWord now) ws sl)) q = dbIDAt (prefixTree sl) q"
  "isEndAt (prefixTree (fold (buildTrieFromWord now) ws sl)) q =
     (q \<in> set ws \<or> isEndAt (prefixTree sl) q)"
  by (induction ws arbitrary: sl) auto

lemma load_wf:
  "wfTrie (prefixTree sl) \<Longrightarrow> wfTrie (prefixTree (fold (buildTrieFromWord now) ws sl))"
  by (induction ws arbitrary: sl) (simp_all add: buildTrieFromWord_wf)

lemma NewSearchLoggerWithDB_Inr:
  assumes "NewSearchLoggerWithDB gw now tmo d = Inr sl"
  obtains ws where "gwGetAllSearchedWords gw (snd (gwCreateTable gw d)) = Inr ws"
    "sl = fold (buildTrieFromWord now) ws
            \<lparr>prefixTree = newNode, db = snd (gwCreateTable gw d), timeout = tmo\<rparr>"
  using assms
  by (auto simp: NewSearchLoggerWithDB_def loadExistingWords_def
      split: prod.splits option.splits sum.splits)

lemma step_lastSeenAt:
  "eventTime ev \<noteq> 0 \<Longrightarrow>
   (lastSeenAt (prefixTree (step gw ev sl)) p \<noteq> 0) =
   (lastSeenAt (prefixTree sl) p \<noteq> 0 \<or> p \<in> set (submittedWords [ev]))"
proof (cases ev)
  case (Submit t w)
  assume "eventTime ev \<noteq> 0"
  with Submit show ?thesis
    by (cases "w = []") (auto simp: LogSearch_frame(2))
next
  case (Tick t)
  then show ?thesis by simp
qed

lemma submittedWords_Cons:
  "set (submittedWords (ev # evs)) = set (submittedWords [ev]) \<union> set (submittedWords evs)"
  by (cases ev) auto

lemma run_lastSeenAt:
  "\<forall>ev\<in>set evs. eventTime ev \<noteq> 0 \<Longrightarrow>
   (lastSeenAt (prefixTree (run gw evs sl)) p \<noteq> 0) =
   (lastSeenAt (prefixTree sl) p \<noteq> 0 \<or> p \<in> set (submittedWords evs))"
proof (induction evs arbitrary: sl)
  case Nil
  then show ?case by (simp add: run_def)
next
  case (Cons ev evs)
  have "(lastSeenAt (prefixTree (run gw evs (step gw ev sl))) p \<noteq> 0) =
    (lastSeenAt (prefixTree (step gw ev sl)) p \<noteq> 0 \<or> p \<in> set (submittedWords evs))"
    using Cons.prems by (intro Cons.IH) simp
  moreover have "(lastSeenAt (prefixTree (step gw ev sl)) p \<noteq> 0) =
    (lastSeenAt (prefixTree sl) p \<noteq> 0 \<or> p \<in> set (submittedWords [ev]))"
    using Cons.prems by (intro step_lastSeenAt) simp
  ultimately show ?case
    by (simp only: run_def fold_simps submittedWords_Cons [of ev evs] Un_iff) blast
qed

section \<open>The timestamp of a node (C9)\<close>

text \<open>
  C9, as amended. A logger is created at a time other than the zero time over a database
  that lists the words \<open>ws\<close>, and then runs any calls, none at the zero time. Then a node has
  a set timestamp if and only if its string is one of \<open>ws\<close> (\<open>buildTrieFromWord\<close> gave it the
  loading time) or is the lowercased, trimmed form of a non-empty word that was submitted
  through \<open>LogSearch\<close>; and every such submission, in any state, sets the timestamp of that
  node to the time of the call.
\<close>

theorem C9_timestamp_set_iff_loaded_or_submitted:
  assumes new: "NewSearchLoggerWithDB gw now0 tmo d = Inr sl0"
    and now0: "now0 \<noteq> 0"
    and times: "\<forall>ev\<in>set evs. eventTime ev \<noteq> 0"
  shows "(\<exists>ws. gwGetAllSearchedWords gw (snd (gwCreateTable gw d)) = Inr ws \<and>
       (\<forall>p. (lastSeenAt (prefixTree (run gw evs sl0)) p \<noteq> 0) =
            (p \<in> set ws \<or> p \<in> set (submittedWords evs)))) \<and>
    (\<forall>now w sl. w \<noteq> [] \<longrightarrow>
       lastSeenAt (prefixTree (snd (LogSearch gw now w sl))) (normalizeWord w) = now)"
proof -
  from new obtain ws where ws: "gwGetAllSearchedWords gw (snd (gwCreateTable gw d)) = Inr ws"
    and sl0: "sl0 = fold (buildTrieFromWord now0) ws
            \<lparr>prefixTree = newNode, db = snd (gwCreateTable gw d), timeout = tmo\<rparr>"
    by (rule NewSearchLoggerWithDB_Inr)
  have "(lastSeenAt (prefixTree sl0) p \<noteq> 0) = (p \<in> set ws)" for p
    using now0 by (simp add: sl0)
  then have "(lastSeenAt (prefixTree (run gw evs sl0)) p \<noteq> 0) =
      (p \<in> set ws \<or> p \<in> set (submittedWords evs))" for p
    using run_lastSeenAt [OF times, of gw sl0 p] by simp
  with ws show ?thesis by (simp add: LogSearch_frame(2))
qed

text \<open>
  C9 as stated fails for a loaded word: the database holds "a", written there by another
  process, and the logger created over it at time 50 has received no submission, yet the
  node of "a" has the timestamp 50.
\<close>

definition c9_db :: MockPostgresDB where
  "c9_db = snd (InsertOrReplace ''a'' 7 7 NewMockPostgresDB)"

definition c9_logger :: "MockPostgresDB SearchLogger" where
  "c9_logger = fold (buildTrieFromWord 50) [''a''] \<lparr>prefixTree = newNode, db = c9_db, timeout = 10\<rparr>"

theorem C9_counterexample:
  "NewSearchLoggerWithDB mockGateway 50 10 c9_db = Inr c9_logger \<and>
   submittedWords [] = [] \<and>
   lastSeenAt (prefixTree (run mockGateway [] c9_logger)) ''a'' = 50"
  by (simp add: c9_logger_def c9_db_def eval_run)

theorem C9_witness:
  "NewSearchLoggerWithDB mockGateway 50 10 c9_db = Inr c9_logger \<and>
   gwGetAllSearchedWords mockGateway (snd (gwCreateTable mockGateway c9_db)) = Inr [''a''] \<and>
   submittedWords [Submit 60 ''Ab '', Tick 80] = [''ab''] \<and>
   lastSeenAt (prefixTree (run mockGateway [Submit 60 ''Ab '', Tick 80] c9_logger)) ''a'' \<noteq> 0 \<and>
   lastSeenAt (prefixTree (run mockGateway [Submit 60 ''Ab '', Tick 80] c9_logger)) ''ab'' \<noteq> 0 \<and>
   lastSeenAt (prefixTree (run mockGateway [Submit 60 ''Ab '', Tick 80] c9_logger)) ''b'' = 0 \<and>
   lastSeenAt (prefixTree (snd (LogSearch mockGateway 60 ''Ab '' c9_logger))) ''ab'' = 60"
proof -
  have new: "NewSearchLoggerWithDB mockGateway 50 10 c9_db = Inr c9_logger"
    by (simp add: c9_logger_def c9_db_def eval_run)
  have ws: "gwGetAllSearchedWords mockGateway (snd (gwCreateTable mockGateway c9_db)) = Inr [''a'']"
    by (simp add: c9_db_def eval_run)
  have n: "normalizeWord ''Ab '' = ''ab''" by code_simp
  have sub: "submittedWords [Submit 60 ''Ab '', Tick 80] = [''ab'']"
    by (simp add: n)
  let ?evs = "[Submit 60 ''Ab '', Tick 80]"
  have c9: "(\<exists>ws. Inr [''a''] = (Inr ws :: error + string list) \<and>
       (\<forall>p. (lastSeenAt (prefixTree (run mockGateway ?evs c9_logger)) p \<noteq> 0) =
            (p \<in> set ws \<or> p \<in> set [''ab'']))) \<and>
    (\<forall>now w sl. w \<noteq> [] \<longrightarrow>
       lastSeenAt (prefixTree (snd (LogSearch mockGateway now w (sl :: MockPostgresDB SearchLogger))))
         (normalizeWord w) = now)"
    using C9_timestamp_set_iff_loaded_or_submitted [OF new, of ?evs] by (simp only: ws sub) simp
  then have iff: "(lastSeenAt (prefixTree (run mockGateway ?evs c9_logger)) p \<noteq> 0) =
      (p \<in> set [''a''] \<or> p \<in> set [''ab''])" for p
    by blast
  from c9 have upd: "lastSeenAt (prefixTree (snd (LogSearch mockGateway 60 ''Ab '' c9_logger)))
         (normalizeWord ''Ab '') = 60"
    by blast
  have "lastSeenAt (prefixTree (run mockGateway ?evs c9_logger)) ''a'' \<noteq> 0"
    "lastSeenAt (prefixTree (run mockGateway ?evs c9_logger)) ''ab'' \<noteq> 0"
    "lastSeenAt (prefixTree (run mockGateway ?evs c9_logger)) ''b'' = 0"
    using iff [of "''a''"] iff [of "''ab''"] iff [of "''b''"] by simp_all
  with new ws sub upd show ?thesis by (simp only: n) simp
qed

section \<open>Runs: timestamps and suppression\<close>

lemma run_Nil [simp]: "run gw [] sl = sl"
  by (simp add: run_def)

lemma run_Cons [simp]: "run gw (ev # evs) sl = run gw evs (step gw ev sl)"
  by (simp add: run_def)

lemma run_append [simp]: "run gw (xs @ ys) sl = run gw ys (run gw xs sl)"
  by (simp add: run_def)

lemma step_timeout [simp]: "timeout (step gw ev sl) = timeout sl"
  by (cases ev) (simp_all add: LogSearch_frame(1))

lemma run_timeout [simp]: "timeout (run gw evs sl) = timeout sl"
  by (induction evs arbitrary: sl) simp_all

lemma step_wf: "wfTrie (prefixTree sl) \<Longrightarrow> wfTrie (prefixTree (step gw ev sl))"
  by (cases ev) (simp_all add: LogSearch_wf processTimedOutWords_wf)

lemma run_wf: "wfTrie (prefixTree sl) \<Longrightarrow> wfTrie (prefixTree (run gw evs sl))"
  by (induction evs arbitrary: sl) (simp_all add: step_wf)

lemma step_lastSeenAt_eq:
  "lastSeenAt (prefixTree (step gw ev sl)) p =
     (case ev of
        Submit t w \<Rightarrow> if w \<noteq> [] \<and> p = normalizeWord w then t else lastSeenAt (prefixTree sl) p
      | Tick t \<Rightarrow> lastSeenAt (prefixTree sl) p)"
proof (cases ev)
  case (Submit t w)
  then show ?thesis by (cases "w = []") (simp_all add: LogSearch_frame(2))
next
  case (Tick t)
  then show ?thesis by simp
qed

text \<open>While every call is made at \<open>lo\<close> or later, a timestamp that is at least \<open>lo\<close> stays so.\<close>

lemma run_lastSeenAt_lower:
  "\<forall>ev\<in>set evs. lo \<le> eventTime ev \<Longrightarrow> lo \<le> lastSeenAt (prefixTree sl) p \<Longrightarrow>
   lo \<le> lastSeenAt (prefixTree (run gw evs sl)) p"
proof (induction evs arbitrary: sl)
  case Nil
  then show ?case by simp
next
  case (Cons ev evs)
  have "lo \<le> lastSeenAt (prefixTree (step gw ev sl)) p"
    using Cons.prems step_lastSeenAt_eq [of gw ev sl p] by (cases ev) auto
  with Cons.prems show ?case by (simp add: Cons.IH)
qed

lemma fold_sweepWord_suppressed:
  "wfTrie (prefixTree sl) \<Longrightarrow> isPrefixOfAnyWord w sl \<Longrightarrow>
   dbIDAt (prefixTree (fold (sweepWord gw now) ws sl)) w = dbIDAt (prefixTree sl) w \<and>
   isEndAt (prefixTree (fold (sweepWord gw now) ws sl)) w = isEndAt (prefixTree sl) w"
proof (induction ws arbitrary: sl)
  case Nil
  then show ?case by simp
next
  case (Cons x xs)
  have same: "dbIDAt (prefixTree (sweepWord gw now x sl)) w = dbIDAt (prefixTree sl) w \<and>
    isEndAt (prefixTree (sweepWord gw now x sl)) w = isEndAt (prefixTree sl) w"
  proof (cases "x = w")
    case True
    with Cons.prems(2) have "sweepWord gw now x sl = sl" by (simp add: sweepWord_skip)
    then show ?thesis by simp
  next
    case False
    then show ?thesis by (simp add: sweepWord_other)
  qed
  have "wfTrie (prefixTree (sweepWord gw now x sl))" using Cons.prems(1) by (rule sweepWord_wf)
  moreover have "isPrefixOfAnyWord w (sweepWord gw now x sl)"
    using Cons.prems by (simp add: sweepWord_isPrefix)
  ultimately show ?case using Cons.IH [of "sweepWord gw now x sl"] same by simp
qed

text \<open>The two reasons for which a tick leaves a word alone.\<close>

lemma tick_leaves_word:
  assumes "wfTrie (prefixTree sl)"
    and "w \<notin> set (findAllTimedOutWords (prefixTree sl) [] (now - timeout sl)) \<or>
         isPrefixOfAnyWord w sl"
  shows "dbIDAt (prefixTree (processTimedOutWords gw now sl)) w = dbIDAt (prefixTree sl) w \<and>
    isEndAt (prefixTree (processTimedOutWords gw now sl)) w = isEndAt (prefixTree sl) w"
  using assms
  by (auto simp: processTimedOutWords_fold fold_sweepWord_other fold_sweepWord_suppressed)

lemma seen_extension_suppresses:
  "wfTrie (prefixTree sl) \<Longrightarrow> strict_prefix A B \<Longrightarrow> lastSeenAt (prefixTree sl) B \<noteq> 0 \<Longrightarrow>
   isPrefixOfAnyWord A sl"
  by (auto simp: isPrefixOfAnyWord_iff strict_prefix_def prefix_def)

lemma run_keeps_seen:
  "\<forall>ev\<in>set evs. eventTime ev \<noteq> 0 \<Longrightarrow> lastSeenAt (prefixTree sl) p \<noteq> 0 \<Longrightarrow>
   lastSeenAt (prefixTree (run gw evs sl)) p \<noteq> 0"
  by (simp add: run_lastSeenAt)

lemma LogSearch_timeout [simp]: "timeout (snd (LogSearch gw now word sl)) = timeout sl"
  by (rule LogSearch_frame(1))

section \<open>Prefix suppression (C6)\<close>

text \<open>
  What a tick does to a word when it stores it is to set isEndOfWord and, the upsert
  done, the dbID of its node: \<open>sweepLeaves\<close> says that the tick changed neither.
\<close>

definition sweepLeaves :: "'db gateway \<Rightarrow> time \<Rightarrow> string \<Rightarrow> 'db SearchLogger \<Rightarrow> bool" where
  "sweepLeaves gw now w sl =
     (dbIDAt (prefixTree (processTimedOutWords gw now sl)) w = dbIDAt (prefixTree sl) w \<and>
      isEndAt (prefixTree (processTimedOutWords gw now sl)) w = isEndAt (prefixTree sl) w)"


definition c6_before :: "MockPostgresDB SearchLogger" where
  "c6_before = run mockGateway [Submit 1 ''a''] (emptyLogger 10)"

definition c6_after :: "MockPostgresDB SearchLogger" where
  "c6_after = run mockGateway [Submit 1 ''a'', Tick 5, Submit 6 ''ab''] (emptyLogger 10)"


section \<open>Trimming and lowercasing keep the prefix order\<close>

lemma rtrim_prefix:
  assumes "prefix y v" "y = [] \<or> \<not> P (last y)"
  shows "prefix y (rev (dropWhile P (rev v)))"
proof -
  from assms(1) obtain z where v: "v = y @ z" by (auto simp: prefix_def)
  have "\<exists>x. dropWhile P (rev z @ rev y) = x @ rev y"
  proof (cases "\<forall>c\<in>set (rev z). P c")
    case True
    then have "dropWhile P (rev z @ rev y) = dropWhile P (rev y)"
      by (intro dropWhile_append2) blast
    also have "\<dots> = rev y"
      using assms(2) by (cases y rule: rev_cases) simp_all
    finally show ?thesis by simp
  next
    case False
    then obtain c where "c \<in> set (rev z)" "\<not> P c" by blast
    then have "dropWhile P (rev z @ rev y) = dropWhile P (rev z) @ rev y"
      by (rule dropWhile_append1)
    then show ?thesis by blast
  qed
  then obtain x where "dropWhile P (rev v) = x @ rev y" by (auto simp: v)
  then show ?thesis by (simp add: prefix_def)
qed

lemma rtrim_shape:
  "rev (dropWhile P (rev u)) = [] \<or> \<not> P (last (rev (dropWhile P (rev u))))"
proof (cases "dropWhile P (rev u)")
  case Nil
  then show ?thesis by simp
next
  case (Cons c cs)
  then have "\<not> P c" using hd_dropWhile [of P "rev u"] by auto
  with Cons show ?thesis by simp
qed

lemma rtrim_is_prefix: "prefix (rev (dropWhile P (rev u))) u"
proof -
  have "rev u = takeWhile P (rev u) @ dropWhile P (rev u)" by simp
  then have "u = rev (dropWhile P (rev u)) @ rev (takeWhile P (rev u))"
    by (metis rev_append rev_rev_ident)
  then show ?thesis by (rule prefixI)
qed

lemma rtrim_mono:
  "prefix u v \<Longrightarrow> prefix (rev (dropWhile P (rev u))) (rev (dropWhile P (rev v)))"
proof -
  assume uv: "prefix u v"
  have "prefix (rev (dropWhile P (rev u))) v"
    using rtrim_is_prefix uv by (rule prefix_order.trans)
  then show ?thesis using rtrim_shape by (rule rtrim_prefix)
qed

lemma ltrim_mono:
  "prefix u v \<Longrightarrow> prefix (dropWhile P u) (dropWhile P v)"
proof (induction u arbitrary: v)
  case Nil
  then show ?case by simp
next
  case (Cons c u)
  from Cons.prems obtain v' where "v = c # v'" "prefix u v'" by (cases v) auto
  with Cons.IH [of v'] show ?case by simp
qed

lemma TrimSpace_mono: "prefix u v \<Longrightarrow> prefix (TrimSpace u) (TrimSpace v)"
  unfolding TrimSpace_def by (intro rtrim_mono ltrim_mono)

lemma normalizeWord_mono: "prefix u v \<Longrightarrow> prefix (normalizeWord u) (normalizeWord v)"
  unfolding normalizeWord_def ToLower_def by (intro map_mono_prefix TrimSpace_mono)

section \<open>Typing one word into an empty logger\<close>

text \<open>
  Two shapes of the logger while the prefixes of one word are typed into an empty logger.
  \<open>pending m t\<close>: the timestamped nodes are prefixes of \<open>m\<close>, which was submitted last, at
  \<open>t\<close>; nothing is stored. \<open>settled m\<close>: the same, and \<open>m\<close> is the one stored word and its
  node the one that holds a reference.
\<close>

definition pending :: "string \<Rightarrow> time \<Rightarrow> MockPostgresDB SearchLogger \<Rightarrow> bool" where
  "pending m t sl =
     (wfTrie (prefixTree sl) \<and> (\<forall>p. lastSeenAt (prefixTree sl) p \<noteq> 0 \<longrightarrow> prefix p m) \<and>
      lastSeenAt (prefixTree sl) m = t \<and> t \<noteq> 0 \<and>
      (\<forall>p. dbIDAt (prefixTree sl) p = None) \<and> db sl = NewMockPostgresDB)"

definition settled :: "string \<Rightarrow> MockPostgresDB SearchLogger \<Rightarrow> bool" where
  "settled m sl =
     (wfTrie (prefixTree sl) \<and> (\<forall>p. lastSeenAt (prefixTree sl) p \<noteq> 0 \<longrightarrow> prefix p m) \<and>
      lastSeenAt (prefixTree sl) m \<noteq> 0 \<and>
      (\<forall>p. (dbIDAt (prefixTree sl) p \<noteq> None) = (p = m)) \<and> dbWords (db sl) = [m])"

lemma seen_hasNode: "lastSeenAt n p \<noteq> 0 \<Longrightarrow> hasNode n p"
  by (auto simp: lastSeenAt_def hasNode_def split: option.splits)

lemma submit_no_stored_prefix:
  assumes "word \<noteq> []"
    and "\<And>p. storedAt (prefixTree sl) p \<Longrightarrow> \<not> strict_prefix p (normalizeWord word)"
  shows "step gw (Submit now word) sl =
    sl\<lparr>prefixTree := touch now (normalizeWord word) (prefixTree sl)\<rparr>"
proof -
  have "LogSearch gw now word sl =
    (None, sl\<lparr>prefixTree := touch now (normalizeWord word) (prefixTree sl)\<rparr>)"
  proof (rule LogSearch_idle [OF assms(1)])
    fix k assume k: "0 < k" "k < length (normalizeWord word)"
    then have "strict_prefix (take k (normalizeWord word)) (normalizeWord word)"
      by (metis take_is_prefix strict_prefixI length_take min.absorb2 less_imp_le nat_neq_iff)
    with assms(2) show "\<not> storedAt (prefixTree sl) (take k (normalizeWord word))" by blast
  qed
  then show ?thesis by simp
qed

lemma empty_submit:
  assumes "word \<noteq> []" "now \<noteq> 0"
  shows "pending (normalizeWord word) now (step mockGateway (Submit now word) (emptyLogger tmo))"
proof -
  have "step mockGateway (Submit now word) (emptyLogger tmo) =
    (emptyLogger tmo)\<lparr>prefixTree := touch now (normalizeWord word) (prefixTree (emptyLogger tmo))\<rparr>"
    using assms(1) by (rule submit_no_stored_prefix) (simp add: storedAt_def)
  with assms(2) show ?thesis by (simp add: pending_def touch_wf)
qed

lemma pending_submit:
  assumes "pending m t sl" "word \<noteq> []" "now \<noteq> 0"
    and "prefix m (normalizeWord word) \<or> prefix (normalizeWord word) m"
  shows "pending (if prefix m (normalizeWord word) then normalizeWord word else m)
           (if prefix m (normalizeWord word) then now else t)
           (step mockGateway (Submit now word) sl)"
proof -
  have "step mockGateway (Submit now word) sl =
    sl\<lparr>prefixTree := touch now (normalizeWord word) (prefixTree sl)\<rparr>"
    using assms(2,1) by (intro submit_no_stored_prefix) (simp_all add: storedAt_def pending_def)
  with assms show ?thesis
    by (auto simp: pending_def touch_wf dest: prefix_order.trans prefix_order.antisym)
qed

lemma settled_submit:
  assumes "settled m sl" "word \<noteq> []" "now \<noteq> 0" "prefix (normalizeWord word) m"
  shows "settled m (step mockGateway (Submit now word) sl)"
proof -
  have "\<not> strict_prefix p (normalizeWord word)" if "storedAt (prefixTree sl) p" for p
  proof -
    from that assms(1) have "p = m" by (simp add: storedAt_def settled_def)
    with assms(4) show ?thesis by auto
  qed
  with assms(2) have "step mockGateway (Submit now word) sl =
    sl\<lparr>prefixTree := touch now (normalizeWord word) (prefixTree sl)\<rparr>"
    by (intro submit_no_stored_prefix)
  with assms show ?thesis
    by (auto simp: settled_def touch_wf)
qed

lemma settled_tick:
  assumes "settled m sl"
  shows "step mockGateway (Tick now) sl = sl"
proof -
  have wf: "wfTrie (prefixTree sl)" using assms by (simp add: settled_def)
  have "fold (sweepWord mockGateway now)
      (findAllTimedOutWords (prefixTree sl) [] (now - timeout sl)) sl = sl"
  proof (rule fold_sweepWord_skip)
    fix x assume "x \<in> set (findAllTimedOutWords (prefixTree sl) [] (now - timeout sl))"
    then have "lastSeenAt (prefixTree sl) x \<noteq> 0" using timedOut_seen [OF wf] by blast
    with assms have px: "prefix x m" by (simp add: settled_def)
    show "dbIDAt (prefixTree sl) x \<noteq> None \<or> \<not> hasNode (prefixTree sl) x \<or>
          isPrefixOfAnyWord x sl"
    proof (cases "x = m")
      case True
      with assms show ?thesis by (simp add: settled_def)
    next
      case False
      with px have "strict_prefix x m" by (simp add: strict_prefix_def)
      moreover have "lastSeenAt (prefixTree sl) m \<noteq> 0" using assms by (simp add: settled_def)
      ultimately have "isPrefixOfAnyWord x sl" using wf by (intro seen_extension_suppresses)
      then show ?thesis by simp
    qed
  qed
  then show ?thesis by (simp add: processTimedOutWords_fold)
qed

lemma pending_tick_early:
  assumes "pending m t sl" "\<not> t < now - timeout sl"
  shows "step mockGateway (Tick now) sl = sl"
proof -
  have wf: "wfTrie (prefixTree sl)" using assms by (simp add: pending_def)
  have "fold (sweepWord mockGateway now)
      (findAllTimedOutWords (prefixTree sl) [] (now - timeout sl)) sl = sl"
  proof (rule fold_sweepWord_skip)
    fix x assume "x \<in> set (findAllTimedOutWords (prefixTree sl) [] (now - timeout sl))"
    then have x: "lastSeenAt (prefixTree sl) x \<noteq> 0" "lastSeenAt (prefixTree sl) x < now - timeout sl"
      using timedOut_seen [OF wf] by blast+
    with assms have "prefix x m" "x \<noteq> m" by (auto simp: pending_def)
    then have "strict_prefix x m" by (simp add: strict_prefix_def)
    moreover have "lastSeenAt (prefixTree sl) m \<noteq> 0" using assms by (simp add: pending_def)
    ultimately have "isPrefixOfAnyWord x sl" using wf by (intro seen_extension_suppresses)
    then show "dbIDAt (prefixTree sl) x \<noteq> None \<or> \<not> hasNode (prefixTree sl) x \<or>
          isPrefixOfAnyWord x sl" by simp
  qed
  then show ?thesis by (simp add: processTimedOutWords_fold)
qed

lemma InsertOrReplace_first:
  "InsertOrReplace w a b NewMockPostgresDB =
     (Inr 1, \<lparr>searches = [(1, \<lparr>ID = 1, Word = w, FirstSearchedAt = a, LastUpdatedAt = b,
                              SearchCount = 1\<rparr>)], nextID = 2\<rparr>)"
  by (simp add: InsertOrReplace_def NewMockPostgresDB_def)

lemma pending_tick_late:
  assumes "pending m t sl" "t < now - timeout sl"
  shows "settled m (step mockGateway (Tick now) sl)"
proof -
  let ?cs = "findAllTimedOutWords (prefixTree sl) [] (now - timeout sl)"
  let ?d = "\<lparr>searches = [(1, \<lparr>ID = 1, Word = m, FirstSearchedAt = now, LastUpdatedAt = now,
                              SearchCount = 1\<rparr>)], nextID = 2\<rparr>"
  have wf: "wfTrie (prefixTree sl)" using assms by (simp add: pending_def)
  have seen: "lastSeenAt (prefixTree sl) m \<noteq> 0" "lastSeenAt (prefixTree sl) m < now - timeout sl"
    using assms by (simp_all add: pending_def)
  have node: "hasNode (prefixTree sl) m" using seen(1) by (rule seen_hasNode)
  have none: "dbIDAt (prefixTree sl) m = None" using assms by (simp add: pending_def)
  have np: "\<not> isPrefixOfAnyWord m sl"
  proof
    assume "isPrefixOfAnyWord m sl"
    then obtain q where "q \<noteq> []" "lastSeenAt (prefixTree sl) (m @ q) \<noteq> 0"
      using wf by (auto simp: isPrefixOfAnyWord_iff)
    with assms(1) have "prefix (m @ q) m" "q \<noteq> []" by (auto simp: pending_def)
    then show False by simp
  qed
  have ins: "gwInsertOrReplace mockGateway m now now (db sl) = (Inr 1, ?d)"
    using assms(1) by (simp add: pending_def InsertOrReplace_first)
  have "fold (sweepWord mockGateway now) ?cs sl = sweepWord mockGateway now m sl"
  proof (rule fold_sweepWord_single [OF wf _ node none np ins])
    show "m \<in> set ?cs" using findAll_mem_if [OF seen, of "[]"] by simp
    fix x assume "x \<in> set ?cs" "x \<noteq> m"
    then have "lastSeenAt (prefixTree sl) x \<noteq> 0" "x \<noteq> m"
      using timedOut_seen [OF wf] by blast+
    with assms(1) have "strict_prefix x m" by (simp add: pending_def strict_prefix_def)
    with seen(1) wf have "isPrefixOfAnyWord x sl" by (intro seen_extension_suppresses)
    then show "dbIDAt (prefixTree sl) x \<noteq> None \<or> \<not> hasNode (prefixTree sl) x \<or>
          isPrefixOfAnyWord x sl" by simp
  qed
  also have "\<dots> = sl\<lparr>db := ?d,
       prefixTree := updateAt m (setDbID (Some 1)) (updateAt m (setIsEndOfWord True) (prefixTree sl))\<rparr>"
    using node none np ins by (rule sweepWord_stored)
  finally have "step mockGateway (Tick now) sl = sl\<lparr>db := ?d,
       prefixTree := updateAt m (setDbID (Some 1)) (updateAt m (setIsEndOfWord True) (prefixTree sl))\<rparr>"
    by (simp add: processTimedOutWords_fold)
  with assms(1) node show ?thesis
    by (simp add: settled_def pending_def wf_updateAt dbWords_def)
qed

section \<open>Runs that type one word\<close>

text \<open>
  \<open>typing tmo t p now evs\<close>: the calls \<open>evs\<close> that follow the submission of \<open>p\<close> at \<open>t\<close>, the
  clock being at \<open>now\<close>. No call reads the clock earlier than the call before it; every
  submission is of a strict extension of the word submitted before it and comes less than
  \<open>tmo\<close> after that submission. Ticks may come at any time.
\<close>

fun typing :: "duration \<Rightarrow> time \<Rightarrow> string \<Rightarrow> time \<Rightarrow> event list \<Rightarrow> bool" where
  "typing tmo t p now [] = True"
| "typing tmo t p now (Tick s # evs) = (now \<le> s \<and> typing tmo t p s evs)"
| "typing tmo t p now (Submit t' w # evs) =
     (now \<le> t' \<and> t' \<noteq> 0 \<and> t' < t + tmo \<and> strict_prefix p w \<and> typing tmo t' w t' evs)"

text \<open>
  \<open>shortening p evs\<close>: every submission of \<open>evs\<close> is of a strict prefix of the word submitted
  before it, the first of a strict prefix of \<open>p\<close>.
\<close>

fun shortening :: "string \<Rightarrow> event list \<Rightarrow> bool" where
  "shortening p [] = True"
| "shortening p (Tick s # evs) = shortening p evs"
| "shortening p (Submit t w # evs) = (t \<noteq> 0 \<and> strict_prefix w p \<and> shortening w evs)"

fun lastWord :: "string \<Rightarrow> event list \<Rightarrow> string" where
  "lastWord p [] = p"
| "lastWord p (Tick s # evs) = lastWord p evs"
| "lastWord p (Submit t w # evs) = lastWord w evs"

fun submitTimes :: "event list \<Rightarrow> time list" where
  "submitTimes [] = []"
| "submitTimes (Tick s # evs) = submitTimes evs"
| "submitTimes (Submit t w # evs) = t # submitTimes evs"

definition typed :: "string \<Rightarrow> time set \<Rightarrow> MockPostgresDB SearchLogger \<Rightarrow> bool" where
  "typed m T sl = ((\<exists>t\<in>T. pending m t sl) \<or> settled m sl)"

lemma typed_mono: "typed m T sl \<Longrightarrow> T \<subseteq> T' \<Longrightarrow> typed m T' sl"
  by (auto simp: typed_def)

lemma typed_storedWords: "typed m T sl \<Longrightarrow> storedWords mockGateway sl \<in> {[], [m]}"
  by (auto simp: typed_def pending_def settled_def dbWords_def NewMockPostgresDB_def)

lemma typed_tick: "typed m T sl \<Longrightarrow> typed m T (step mockGateway (Tick s) sl)"
proof -
  assume "typed m T sl"
  then consider t where "t \<in> T" "pending m t sl" | "settled m sl"
    by (auto simp: typed_def)
  then show ?thesis
  proof cases
    case 1
    then show ?thesis
      using pending_tick_early [of m t sl s] pending_tick_late [of m t sl s]
      by (cases "t < s - timeout sl") (auto simp: typed_def)
  next
    case 2
    then show ?thesis using settled_tick [of m sl s] by (simp add: typed_def)
  qed
qed

lemma typed_late_tick:
  assumes "typed m T sl" "\<forall>t\<in>T. t < s - timeout sl"
  shows "settled m (step mockGateway (Tick s) sl)"
proof -
  from assms(1) consider t where "t \<in> T" "pending m t sl" | "settled m sl"
    by (auto simp: typed_def)
  then show ?thesis
  proof cases
    case 1
    with assms(2) show ?thesis by (intro pending_tick_late) auto
  next
    case 2
    then show ?thesis using settled_tick [of m sl s] by simp
  qed
qed

lemma typed_shorter:
  assumes "typed m T sl" "t \<noteq> 0" "prefix (normalizeWord w) m"
  shows "typed m (insert t T) (step mockGateway (Submit t w) sl)"
proof (cases "w = []")
  case True
  with assms(1) show ?thesis by (auto simp: typed_def)
next
  case False
  from assms(1) consider t0 where "t0 \<in> T" "pending m t0 sl" | "settled m sl"
    by (auto simp: typed_def)
  then show ?thesis
  proof cases
    case 1
    have "pending (if prefix m (normalizeWord w) then normalizeWord w else m)
           (if prefix m (normalizeWord w) then t else t0) (step mockGateway (Submit t w) sl)"
      using 1(2) False assms(2,3) by (intro pending_submit) simp_all
    moreover have "prefix m (normalizeWord w) \<Longrightarrow> normalizeWord w = m"
      using assms(3) by (simp add: prefix_order.antisym)
    ultimately have "pending m (if prefix m (normalizeWord w) then t else t0)
        (step mockGateway (Submit t w) sl)"
      by (cases "prefix m (normalizeWord w)") simp_all
    with 1(1) show ?thesis
      by (cases "prefix m (normalizeWord w)") (auto simp: typed_def)
  next
    case 2
    then have "settled m (step mockGateway (Submit t w) sl)"
      using False assms(2,3) by (intro settled_submit)
    then show ?thesis by (simp add: typed_def)
  qed
qed

text \<open>After a tick that came \<open>tmo\<close> or more after the last submission no submission follows.\<close>

lemma typing_late: "typing tmo t p now evs \<Longrightarrow> t + tmo \<le> now \<Longrightarrow> submitTimes evs = [] \<and> lastWord p evs = p"
proof (induction evs arbitrary: now)
  case Nil
  then show ?case by simp
next
  case (Cons ev evs)
  then show ?case by (cases ev) auto
qed

lemma settled_ticks:
  "settled m sl \<Longrightarrow> submitTimes evs = [] \<Longrightarrow> run mockGateway evs sl = sl"
proof (induction evs)
  case Nil
  then show ?case by simp
next
  case (Cons ev evs)
  show ?case
  proof (cases ev)
    case (Submit t w)
    with Cons.prems(2) show ?thesis by simp
  next
    case (Tick s)
    have "step mockGateway (Tick s) sl = sl" using Cons.prems(1) by (rule settled_tick)
    moreover have "run mockGateway evs sl = sl" using Cons.prems Tick by (intro Cons.IH) simp_all
    ultimately show ?thesis using Tick by (simp only: run_Cons)
  qed
qed

lemma take_ticks: "submitTimes evs = [] \<Longrightarrow> submitTimes (take k evs) = []"
proof (induction evs arbitrary: k)
  case Nil
  then show ?case by simp
next
  case (Cons ev evs)
  then show ?case by (cases ev; cases k) simp_all
qed

lemma typing_run:
  assumes "pending (normalizeWord p) t sl" "timeout sl = tmo" "typing tmo t p now evs"
  shows "typed (normalizeWord (lastWord p evs)) (insert t (set (submitTimes evs)))
           (run mockGateway evs sl) \<and>
    (\<forall>k. storedWords mockGateway (run mockGateway (take k evs) sl)
            \<in> {[], [normalizeWord (lastWord p evs)]})"
  using assms
proof (induction evs arbitrary: p t now sl)
  case Nil
  then show ?case
    using typed_storedWords [of "normalizeWord p" "{t}" sl] by (auto simp: typed_def)
next
  case (Cons ev evs)
  have here: "storedWords mockGateway sl = []"
    using Cons.prems(1) by (simp add: pending_def dbWords_def NewMockPostgresDB_def)
  show ?case
  proof (cases ev)
    case (Submit t' w)
    with Cons.prems(3) have w: "t' \<noteq> 0" "strict_prefix p w" "typing tmo t' w t' evs"
      by simp_all
    then have "w \<noteq> []" "prefix (normalizeWord p) (normalizeWord w)"
      by (auto simp: normalizeWord_mono strict_prefix_def)
    with Cons.prems(1) w(1) have
      "pending (if prefix (normalizeWord p) (normalizeWord w) then normalizeWord w else normalizeWord p)
         (if prefix (normalizeWord p) (normalizeWord w) then t' else t)
         (step mockGateway (Submit t' w) sl)"
      by (intro pending_submit) simp_all
    with \<open>prefix (normalizeWord p) (normalizeWord w)\<close>
    have p': "pending (normalizeWord w) t' (step mockGateway (Submit t' w) sl)" by simp
    have "timeout (step mockGateway (Submit t' w) sl) = tmo" using Cons.prems(2) by simp
    with p' w(3) have IH:
      "typed (normalizeWord (lastWord w evs)) (insert t' (set (submitTimes evs)))
           (run mockGateway evs (step mockGateway (Submit t' w) sl)) \<and>
       (\<forall>k. storedWords mockGateway (run mockGateway (take k evs) (step mockGateway (Submit t' w) sl))
            \<in> {[], [normalizeWord (lastWord w evs)]})"
      by (intro Cons.IH)
    have "storedWords mockGateway (run mockGateway (take k (ev # evs)) sl)
            \<in> {[], [normalizeWord (lastWord p (ev # evs))]}" for k
      using IH here Submit by (cases k) simp_all
    moreover have "typed (normalizeWord (lastWord p (ev # evs)))
        (insert t (set (submitTimes (ev # evs)))) (run mockGateway (ev # evs) sl)"
      using IH Submit by (auto intro: typed_mono)
    ultimately show ?thesis by blast
  next
    case (Tick s)
    with Cons.prems(3) have s: "now \<le> s" "typing tmo t p s evs" by simp_all
    show ?thesis
    proof (cases "t < s - tmo")
      case False
      then have "step mockGateway (Tick s) sl = sl"
        using Cons.prems(1,2) by (intro pending_tick_early) simp_all
      moreover have
        "typed (normalizeWord (lastWord p evs)) (insert t (set (submitTimes evs)))
           (run mockGateway evs sl) \<and>
         (\<forall>k. storedWords mockGateway (run mockGateway (take k evs) sl)
            \<in> {[], [normalizeWord (lastWord p evs)]})"
        using Cons.prems(1,2) s(2) by (intro Cons.IH)
      moreover have "storedWords mockGateway (run mockGateway (take k (ev # evs)) sl)
            \<in> {[], [normalizeWord (lastWord p (ev # evs))]}" for k
        using calculation here Tick by (cases k) simp_all
      ultimately show ?thesis using Tick by simp
    next
      case True
      then have st: "settled (normalizeWord p) (step mockGateway (Tick s) sl)"
        using Cons.prems(1,2) by (intro pending_tick_late) simp_all
      from True s(2) have rest: "submitTimes evs = []" "lastWord p evs = p"
        using typing_late [of tmo t p s evs] by simp_all
      have stay: "run mockGateway (take k evs) (step mockGateway (Tick s) sl) =
          step mockGateway (Tick s) sl" for k
        using st rest(1) by (intro settled_ticks take_ticks)
      have "storedWords mockGateway (run mockGateway (take k (ev # evs)) sl)
            \<in> {[], [normalizeWord (lastWord p (ev # evs))]}" for k
        using stay here st Tick rest(2) by (cases k) (simp_all add: settled_def)
      moreover have "run mockGateway (ev # evs) sl = step mockGateway (Tick s) sl"
        using stay [of "length evs"] Tick by simp
      ultimately show ?thesis using st Tick rest(2) by (simp add: typed_def)
    qed
  qed
qed

lemma shortening_run:
  assumes "typed m T sl" "shortening p evs" "prefix (normalizeWord p) m"
  shows "typed m (T \<union> set (submitTimes evs)) (run mockGateway evs sl) \<and>
    (\<forall>k. storedWords mockGateway (run mockGateway (take k evs) sl) \<in> {[], [m]})"
  using assms
proof (induction evs arbitrary: p T sl)
  case Nil
  then show ?case using typed_storedWords [of m T sl] by simp
next
  case (Cons ev evs)
  have here: "storedWords mockGateway sl \<in> {[], [m]}"
    using Cons.prems(1) by (rule typed_storedWords)
  show ?case
  proof (cases ev)
    case (Submit t w)
    with Cons.prems(2) have w: "t \<noteq> 0" "strict_prefix w p" "shortening w evs" by simp_all
    then have pw: "prefix (normalizeWord w) m"
      using Cons.prems(3) normalizeWord_mono [of w p]
      by (auto simp: strict_prefix_def dest: prefix_order.trans)
    then have "typed m (insert t T) (step mockGateway (Submit t w) sl)"
      using Cons.prems(1) w(1) by (intro typed_shorter)
    with w(3) pw have IH:
      "typed m (insert t T \<union> set (submitTimes evs))
         (run mockGateway evs (step mockGateway (Submit t w) sl)) \<and>
       (\<forall>k. storedWords mockGateway (run mockGateway (take k evs) (step mockGateway (Submit t w) sl))
          \<in> {[], [m]})"
      by (intro Cons.IH)
    have "storedWords mockGateway (run mockGateway (take k (ev # evs)) sl) \<in> {[], [m]}" for k
      using IH here Submit by (cases k) simp_all
    with IH Submit show ?thesis by simp
  next
    case (Tick s)
    with Cons.prems(2) have "shortening p evs" by simp
    moreover have "typed m T (step mockGateway (Tick s) sl)"
      using Cons.prems(1) by (rule typed_tick)
    ultimately have IH:
      "typed m (T \<union> set (submitTimes evs)) (run mockGateway evs (step mockGateway (Tick s) sl)) \<and>
       (\<forall>k. storedWords mockGateway (run mockGateway (take k evs) (step mockGateway (Tick s) sl))
          \<in> {[], [m]})"
      using Cons.prems(3) by (intro Cons.IH)
    have "storedWords mockGateway (run mockGateway (take k (ev # evs)) sl) \<in> {[], [m]}" for k
      using IH here Tick by (cases k) simp_all
    with IH Tick show ?thesis by simp
  qed
qed

lemma typing_converges:
  assumes "p \<noteq> []" "t \<noteq> 0" "typing tmo t p t evs" "lastWord p evs = W"
  shows "(\<forall>k. storedWords mockGateway
            (run mockGateway (take k (Submit t p # evs)) (emptyLogger tmo))
          \<in> {[], [normalizeWord W]}) \<and>
    (\<forall>s. (\<forall>u\<in>set (submitTimes (Submit t p # evs)). u < s - tmo) \<longrightarrow>
         storedWords mockGateway
            (run mockGateway (Submit t p # evs @ [Tick s]) (emptyLogger tmo))
          = [normalizeWord W])"
proof -
  let ?sl1 = "step mockGateway (Submit t p) (emptyLogger tmo)"
  have p1: "pending (normalizeWord p) t ?sl1" using assms(1,2) by (rule empty_submit)
  have "timeout ?sl1 = tmo" by simp
  with p1 assms(3) have r:
    "typed (normalizeWord (lastWord p evs)) (insert t (set (submitTimes evs)))
           (run mockGateway evs ?sl1) \<and>
     (\<forall>k. storedWords mockGateway (run mockGateway (take k evs) ?sl1)
            \<in> {[], [normalizeWord (lastWord p evs)]})"
    by (intro typing_run)
  have "storedWords mockGateway (run mockGateway (take k (Submit t p # evs)) (emptyLogger tmo))
          \<in> {[], [normalizeWord W]}" for k
    using r assms(4) by (cases k) (simp_all add: dbWords_def NewMockPostgresDB_def)
  moreover have "storedWords mockGateway
            (run mockGateway (Submit t p # evs @ [Tick s]) (emptyLogger tmo)) = [normalizeWord W]"
    if late: "\<forall>u\<in>set (submitTimes (Submit t p # evs)). u < s - tmo" for s
  proof -
    have "settled (normalizeWord W) (step mockGateway (Tick s) (run mockGateway evs ?sl1))"
      using r late assms(4) by (intro typed_late_tick [where T = "insert t (set (submitTimes evs))"]) simp_all
    then show ?thesis by (simp add: settled_def)
  qed
  ultimately show ?thesis by blast
qed

lemma shortening_converges:
  assumes "W \<noteq> []" "t \<noteq> 0" "shortening W evs"
  shows "(\<forall>k. storedWords mockGateway
            (run mockGateway (take k (Submit t W # evs)) (emptyLogger tmo))
          \<in> {[], [normalizeWord W]}) \<and>
    (\<forall>s. (\<forall>u\<in>set (submitTimes (Submit t W # evs)). u < s - tmo) \<longrightarrow>
         storedWords mockGateway
            (run mockGateway (Submit t W # evs @ [Tick s]) (emptyLogger tmo))
          = [normalizeWord W])"
proof -
  let ?sl1 = "step mockGateway (Submit t W) (emptyLogger tmo)"
  have "pending (normalizeWord W) t ?sl1" using assms(1,2) by (rule empty_submit)
  then have ty: "typed (normalizeWord W) {t} ?sl1" by (simp add: typed_def)
  have r:
    "typed (normalizeWord W) ({t} \<union> set (submitTimes evs)) (run mockGateway evs ?sl1) \<and>
     (\<forall>k. storedWords mockGateway (run mockGateway (take k evs) ?sl1) \<in> {[], [normalizeWord W]})"
    using ty assms(3) prefix_order.refl by (rule shortening_run)
  have "storedWords mockGateway (run mockGateway (take k (Submit t W # evs)) (emptyLogger tmo))
          \<in> {[], [normalizeWord W]}" for k
    using r by (cases k) (simp_all add: dbWords_def NewMockPostgresDB_def)
  moreover have "storedWords mockGateway
            (run mockGateway (Submit t W # evs @ [Tick s]) (emptyLogger tmo)) = [normalizeWord W]"
    if late: "\<forall>u\<in>set (submitTimes (Submit t W # evs)). u < s - tmo" for s
  proof -
    have "settled (normalizeWord W) (step mockGateway (Tick s) (run mockGateway evs ?sl1))"
      using r late by (intro typed_late_tick [where T = "{t} \<union> set (submitTimes evs)"]) simp_all
    then show ?thesis by (simp add: settled_def)
  qed
  ultimately show ?thesis by blast
qed

section \<open>Convergence (C1)\<close>

text \<open>
  C1: a non-empty word \<open>p\<close> is submitted to a new logger at \<open>t\<close>, and the calls \<open>evs\<close> follow:
  ticks at any time, and submissions of strictly growing extensions, each less than the
  timeout after the submission before it, the last of them of \<open>W\<close>. Then after every call of
  the run the database holds nothing or the one word \<open>W\<close> (lowercased and trimmed, as
  \<open>LogSearch\<close> makes it): no shorter prefix is ever stored, and \<open>W\<close> never twice. After a
  tick that comes later than the timeout after every submission, it holds exactly \<open>W\<close>.
\<close>

theorem C1_typing_stores_the_word_once:
  assumes "p \<noteq> []" "t \<noteq> 0" "typing tmo t p t evs" "lastWord p evs = W"
  shows "(\<forall>k. storedWords mockGateway
            (run mockGateway (take k (Submit t p # evs)) (emptyLogger tmo))
          \<in> {[], [normalizeWord W]}) \<and>
    (\<forall>s. (\<forall>u\<in>set (submitTimes (Submit t p # evs)). u < s - tmo) \<longrightarrow>
         storedWords mockGateway
            (run mockGateway (Submit t p # evs @ [Tick s]) (emptyLogger tmo))
          = [normalizeWord W])"
  using assms by (rule typing_converges)

definition c1_calls :: "event list" where
  "c1_calls = [Submit 20 ''bu'', Tick 25, Submit 30 ''bus'', Submit 40 ''busi'', Submit 50 ''busin'',
     Tick 55, Submit 60 ''busine'', Submit 70 ''busines'', Submit 80 ''business'', Tick 120]"

lemma c1_calls_typing:
  "typing 100 10 ''b'' 10 c1_calls" "lastWord ''b'' c1_calls = ''business''"
  "submitTimes (Submit 10 ''b'' # c1_calls) = [10, 20, 30, 40, 50, 60, 70, 80]"
  "normalizeWord ''business'' = ''business''"
  by (simp_all add: c1_calls_def eval_run)

theorem C1_witness:
  "typing 100 10 ''b'' 10 c1_calls \<and> lastWord ''b'' c1_calls = ''business'' \<and>
   storedWords mockGateway (run mockGateway (take 7 (Submit 10 ''b'' # c1_calls)) (emptyLogger 100))
     \<in> {[], [''business'']} \<and>
   storedWords mockGateway (run mockGateway (Submit 10 ''b'' # c1_calls @ [Tick 200]) (emptyLogger 100))
     = [''business'']"
proof -
  have ne: "''b'' \<noteq> []" "(10::int) \<noteq> 0" by simp_all
  have late: "\<forall>u\<in>set (submitTimes (Submit 10 ''b'' # c1_calls)). u < 200 - 100"
    by (simp only: c1_calls_typing(3)) simp
  note th = C1_typing_stores_the_word_once [OF ne c1_calls_typing(1,2)]
  from th have 1: "storedWords mockGateway
      (run mockGateway (take 7 (Submit 10 ''b'' # c1_calls)) (emptyLogger 100))
     \<in> {[], [normalizeWord ''business'']}" by blast
  from th late have 2: "storedWords mockGateway
      (run mockGateway (Submit 10 ''b'' # c1_calls @ [Tick 200]) (emptyLogger 100))
     = [normalizeWord ''business'']" by blast
  from 1 2 c1_calls_typing(1,2) show ?thesis
    unfolding c1_calls_typing(4) by blast
qed

section \<open>Order independence (C5)\<close>


definition c5_calls :: "event list" where
  "c5_calls = [Submit 20 ''ap'', Tick 115, Submit 120 ''a'', Tick 125]"

definition c5_increasing :: "event list" where
  "c5_increasing = [Submit 20 ''ap'', Submit 30 ''app'']"

lemma c5_calls_facts:
  "shortening ''app'' c5_calls" "submitTimes (Submit 10 ''app'' # c5_calls) = [10, 20, 120]"
  "typing 100 10 ''a'' 10 c5_increasing" "lastWord ''a'' c5_increasing = ''app''"
  "submitTimes (Submit 10 ''a'' # c5_increasing) = [10, 20, 30]"
  "normalizeWord ''app'' = ''app''"
  by (simp_all add: c5_calls_def c5_increasing_def eval_run)


end
